theory Spec2Isabelle
  imports Main
begin

section \<open>Strings and numbers of the JavaScript runtime\<close>

text \<open>
  A JavaScript string is a sequence of code units. The embedding uses \<^typ>\<open>string\<close>: a
  \<^typ>\<open>char\<close> stands for a code unit in the range U+0000 .. U+00FF. Numbers that the code
  prints into strings (line and column numbers) are integers, printed in decimal as the
  template literals of the source do for integers below \<open>10^21\<close>.
\<close>

fun showNat :: "nat \<Rightarrow> string" where
  "showNat n = (if n < 10 then [''0123456789'' ! n] else showNat (n div 10) @ [''0123456789'' ! (n mod 10)])"

declare showNat.simps [simp del]

definition showInt :: "int \<Rightarrow> string" where
  "showInt i = (if i < 0 then CHR ''-'' # showNat (nat (- i)) else showNat (nat i))"

section \<open>Selection state (src/unnamed/part\_001, class SelectionState)\<close>

text \<open>
  \<open>SelectionRange\<close> is declared in \<open>shared/messages\<close>; its fields are the ones that
  \<open>serialize\<close>, \<open>consume\<close> and \<open>buildSelectionRange\<close> read and write. The columns are
  optional (\<open>startColumn ?? 0\<close>), and so is the \<open>autoInclude\<close> flag, which \<open>consume\<close> sets.
\<close>

record SelectionRange =
  filePath :: string
  startLine :: int
  endLine :: int
  startColumn :: "int option"
  endColumn :: "int option"
  selectedText :: string
  autoInclude :: "bool option"

record SelectionState =
  lastSelection :: "SelectionRange option"
  lastSignature :: "string option"
  pendingAutoInclude :: bool
  pendingSignature :: "string option"

text \<open>The field initialisers of the class.\<close>

definition selectionState_init :: SelectionState where
  "selectionState_init =
     \<lparr>lastSelection = None, lastSignature = None, pendingAutoInclude = False, pendingSignature = None\<rparr>"

text \<open>\<open>serialize\<close>: the template literal joining six fields with colons.\<close>

definition serialize :: "SelectionRange \<Rightarrow> string" where
  "serialize selection =
     filePath selection @ '':'' @ showInt (startLine selection) @ '':'' @ showInt (endLine selection)
       @ '':'' @ showInt (case startColumn selection of None \<Rightarrow> 0 | Some c \<Rightarrow> c)
       @ '':'' @ showInt (case endColumn selection of None \<Rightarrow> 0 | Some c \<Rightarrow> c)
       @ '':'' @ selectedText selection"

text \<open>
  \<open>set(selection, options)\<close>. The second argument is \<open>options?.autoInclude\<close>: \<open>None\<close> when
  the options or the field are absent. The object spread \<open>{ ...selection }\<close> copies every
  field, the \<open>autoInclude\<close> field of the argument included.
\<close>

definition set_selection :: "SelectionRange option \<Rightarrow> bool option \<Rightarrow> SelectionState \<Rightarrow> SelectionState" where
  "set_selection selection optAutoInclude st =
     (let st1 = (case selection of
                   Some s \<Rightarrow> st\<lparr>lastSelection := Some s, lastSignature := Some (serialize s)\<rparr>
                 | None \<Rightarrow> st\<lparr>lastSelection := None, lastSignature := None\<rparr>)
      in if selection \<noteq> None \<and> optAutoInclude = Some True
         then st1\<lparr>pendingAutoInclude := True, pendingSignature := lastSignature st1\<rparr>
         else if selection = None \<or> pendingSignature st1 \<noteq> lastSignature st1
         then st1\<lparr>pendingAutoInclude := False, pendingSignature := None\<rparr>
         else st1)"

definition getSnapshot :: "SelectionState \<Rightarrow> SelectionRange option" where
  "getSnapshot st = (case lastSelection st of Some s \<Rightarrow> Some s | None \<Rightarrow> None)"

text \<open>\<open>consume\<close> returns the snapshot and the state it leaves behind.\<close>

definition consume :: "SelectionState \<Rightarrow> SelectionRange option \<times> SelectionState" where
  "consume st =
     (case lastSelection st of
        None \<Rightarrow> (None, st)
      | Some s \<Rightarrow>
          if pendingAutoInclude st
          then (Some (s\<lparr>autoInclude := Some True\<rparr>),
                st\<lparr>pendingAutoInclude := False, pendingSignature := None\<rparr>)
          else (Some s, st))"

definition hasPendingAutoInclude :: "SelectionState \<Rightarrow> bool" where
  "hasPendingAutoInclude st = pendingAutoInclude st"

definition clearAutoInclude :: "SelectionState \<Rightarrow> SelectionState" where
  "clearAutoInclude st = st\<lparr>pendingAutoInclude := False, pendingSignature := None\<rparr>"

text \<open>The five public operations, as calls on the shared instance, and a run of calls.\<close>

datatype selection_call =
    CallSet "SelectionRange option" "bool option"
  | CallGetSnapshot
  | CallConsume
  | CallHasPendingAutoInclude
  | CallClearAutoInclude

fun selection_step :: "SelectionState \<Rightarrow> selection_call \<Rightarrow> SelectionState" where
  "selection_step st (CallSet selection opt) = set_selection selection opt st"
| "selection_step st CallGetSnapshot = st"
| "selection_step st CallConsume = snd (consume st)"
| "selection_step st CallHasPendingAutoInclude = st"
| "selection_step st CallClearAutoInclude = clearAutoInclude st"

definition selection_run :: "selection_call list \<Rightarrow> SelectionState" where
  "selection_run calls = foldl selection_step selectionState_init calls"

text \<open>The invariant of claim C10, as a boolean function of the state.\<close>

definition pending_has_selection :: "SelectionState \<Rightarrow> bool" where
  "pending_has_selection st = (if hasPendingAutoInclude st then lastSelection st \<noteq> None else True)"

text \<open>A selection used in the concrete evaluations below.\<close>

definition sel_example :: SelectionRange where
  "sel_example = \<lparr>filePath = ''src/a.ts'', startLine = 3, endLine = 7, startColumn = Some 0,
     endColumn = Some 4, selectedText = ''foo'', autoInclude = None\<rparr>"

text \<open>A selection that already carries the \<open>autoInclude\<close> flag when it is set.\<close>

definition sel_flagged :: SelectionRange where
  "sel_flagged = sel_example\<lparr>autoInclude := Some True\<rparr>"

section \<open>Numbers of the JavaScript runtime\<close>

text \<open>
  A number of the runtime is an IEEE 754 double. The magnitude of a finite double is
  \<open>Double M E\<close>, the value \<open>M * 2^E\<close>, with \<open>2^52 \<le> M < 2^53\<close> and \<open>- 1074 \<le> E \<le> 971\<close> for
  a normal number, \<open>M < 2^52\<close> and \<open>E = - 1074\<close> for a subnormal one, and \<open>Double 0 0\<close> for
  zero. \<open>to_double a b\<close> is the double nearest to the fraction \<open>a / b\<close> (\<open>0 < b\<close>), a tie
  going to the even mantissa, as the runtime reads a number literal; what is too large
  becomes \<open>Infinity\<close>.
\<close>

function bitlen :: "int \<Rightarrow> nat" where
  "bitlen n = (if n \<le> 0 then 0 else Suc (bitlen (n div 2)))"
  by pat_completeness auto

termination
  by (relation "measure nat") auto

declare bitlen.simps [simp del]

text \<open>\<open>floor_log2 a b\<close> is the \<open>l\<close> with \<open>2^l \<le> a / b < 2^(l + 1)\<close>.\<close>

definition floor_log2 :: "int \<Rightarrow> int \<Rightarrow> int" where
  "floor_log2 a b =
     (let l = int (bitlen a) - int (bitlen b)
      in if b * 2 ^ nat l \<le> a * 2 ^ nat (- l) then l else l - 1)"

definition round_even :: "int \<Rightarrow> int \<Rightarrow> int" where
  "round_even a b =
     (let q = a div b; r = a mod b
      in if b < 2 * r \<or> (2 * r = b \<and> odd q) then q + 1 else q)"

datatype double = Double int int | Infinity

definition to_double :: "int \<Rightarrow> int \<Rightarrow> double" where
  "to_double a b =
     (if a \<le> 0 then Double 0 0
      else
        (let E = max (floor_log2 a b - 52) (- 1074);
             M = round_even (a * 2 ^ nat (- E)) (b * 2 ^ nat E)
         in if M = 0 then Double 0 0
            else if M = 2 ^ 53 then (if 971 \<le> E then Infinity else Double (2 ^ 52) (E + 1))
            else if 971 < E then Infinity
            else Double M E))"

text \<open>The magnitude of the number that the decimal literal \<open>m * 10^e\<close> denotes.\<close>

definition double_of :: "int \<Rightarrow> int \<Rightarrow> double" where
  "double_of m e = to_double (\<bar>m\<bar> * 10 ^ nat e) (10 ^ nat (- e))"

section \<open>Values of the JavaScript runtime\<close>

text \<open>
  The values that reach the code as \<open>any\<close>: message payloads and raw content fragments are
  data decoded from JSON, so a value is a finite tree. \<open>JNum m e\<close> is the number that the
  literal \<open>m * 10^e\<close> denotes: the double nearest to it, with the sign of \<open>m\<close>. \<open>JObj\<close> lists
  the own properties of an object in enumeration order, each key once.
\<close>

datatype jsval =
    JUndefined
  | JNull
  | JBool bool
  | JNum int int
  | JStr string
  | JArr "jsval list"
  | JObj "(string \<times> jsval) list"

text \<open>What a statement of the source can throw.\<close>

datatype js_error = TypeError | SyntaxError | SendError | RangeError

text \<open>Truthiness (\<open>ToBoolean\<close>): a number is falsy when it is zero.\<close>

fun truthy :: "jsval \<Rightarrow> bool" where
  "truthy JUndefined = False"
| "truthy JNull = False"
| "truthy (JBool b) = b"
| "truthy (JNum m e) = (double_of m e \<noteq> Double 0 0)"
| "truthy (JStr s) = (s \<noteq> [])"
| "truthy (JArr xs) = True"
| "truthy (JObj ps) = True"

text \<open>
  Reading a property \<open>v.k\<close>, for the property names the source reads (\<open>type\<close>, \<open>text\<close>,
  \<open>request\<close>, \<open>filePath\<close>, ...): none of them is a property of a string, a number, a
  boolean, an array or of \<open>Object.prototype\<close>, so only an own property of an object gives
  a value. Reading a property of \<open>null\<close> or \<open>undefined\<close> throws a \<open>TypeError\<close>.
\<close>

fun readprop :: "jsval \<Rightarrow> string \<Rightarrow> jsval" where
  "readprop (JObj ps) k = (case map_of ps k of Some v \<Rightarrow> v | None \<Rightarrow> JUndefined)"
| "readprop v k = JUndefined"

definition nullish :: "jsval \<Rightarrow> bool" where
  "nullish v = (v = JUndefined \<or> v = JNull)"

definition getprop :: "jsval \<Rightarrow> string \<Rightarrow> js_error + jsval" where
  "getprop v k = (if nullish v then Inl TypeError else Inr (readprop v k))"

text \<open>Optional chaining \<open>v?.k\<close> and the nullish coalescing \<open>a ?? b\<close>.\<close>

definition getprop_opt :: "jsval \<Rightarrow> string \<Rightarrow> jsval" where
  "getprop_opt v k = (if nullish v then JUndefined else readprop v k)"

definition coalesce :: "jsval \<Rightarrow> jsval \<Rightarrow> jsval" where
  "coalesce a b = (if nullish a then b else a)"

text \<open>Sequencing of statements that may throw.\<close>

definition bind_js :: "js_error + 'a \<Rightarrow> ('a \<Rightarrow> js_error + 'b) \<Rightarrow> js_error + 'b" where
  "bind_js r f = (case r of Inl e \<Rightarrow> Inl e | Inr a \<Rightarrow> f a)"

section \<open>Delivery bridge (src/src/services/webViewService.ts, class WebViewService)\<close>

datatype WebviewHost = Sidebar | Editor

record WebviewBootstrapConfig =
  host :: WebviewHost
  page :: "string option"
  id' :: "string option"

text \<open>The envelope \<open>{ type: 'from-extension', message }\<close>.\<close>

record payload =
  type' :: string
  message :: jsval

definition from_extension :: "jsval \<Rightarrow> payload" where
  "from_extension m = \<lparr>type' = ''from-extension'', message = m\<rparr>"

text \<open>
  The fields of the service (\<open>'w\<close> is the identity of a \<open>vscode.Webview\<close>; a JavaScript
  \<open>Set\<close> is a duplicate-free list in insertion order, which is its iteration order),
  the module-level \<open>selectionState\<close> that \<open>handleAutoIncludeDelivered\<close> writes, and
  \<open>delivered\<close>: what each webview has accepted so far, in order.
\<close>

record 'w WebViewService =
  webviews :: "'w list"
  readyWebviews :: "'w list"
  webviewConfigs :: "'w \<rightharpoonup> WebviewBootstrapConfig"
  pendingMessages :: "payload list"
  selectionState :: SelectionState
  delivered :: "('w \<times> payload) list"

definition MAX_PENDING_MESSAGES :: nat where
  "MAX_PENDING_MESSAGES = 50"

definition service_init :: "'w WebViewService" where
  "service_init = \<lparr>webviews = [], readyWebviews = [], webviewConfigs = Map.empty,
     pendingMessages = [], selectionState = selectionState_init, delivered = []\<rparr>"

text \<open>\<open>Set.add\<close> and the three deletes that take a webview out of every collection.\<close>

definition Set_add :: "'a \<Rightarrow> 'a list \<Rightarrow> 'a list" where
  "Set_add x xs = (if x \<in> set xs then xs else xs @ [x])"

definition forget_webview :: "'w \<Rightarrow> 'w WebViewService \<Rightarrow> 'w WebViewService" where
  "forget_webview w st =
     st\<lparr>webviews := removeAll w (webviews st),
        readyWebviews := removeAll w (readyWebviews st),
        webviewConfigs := (webviewConfigs st)(w := None)\<rparr>"

text \<open>
  \<open>webview.postMessage(payload)\<close> is the host's: whether it throws is given by \<open>throws\<close>, a
  function of what has been accepted so far, the webview and the payload. A call that
  throws delivers nothing.
\<close>

type_synonym 'w host_api = "('w \<times> payload) list \<Rightarrow> 'w \<Rightarrow> payload \<Rightarrow> bool"

definition webview_postMessage ::
  "'w host_api \<Rightarrow> 'w \<Rightarrow> payload \<Rightarrow> 'w WebViewService \<Rightarrow> js_error + 'w WebViewService" where
  "webview_postMessage throws w p st =
     (if throws (delivered st) w p then Inl SendError
      else Inr (st\<lparr>delivered := delivered st @ [(w, p)]\<rparr>))"

text \<open>What a webview has accepted, in order.\<close>

definition delivered_to :: "'w \<Rightarrow> 'w WebViewService \<Rightarrow> payload list" where
  "delivered_to w st = map snd (filter (\<lambda>d. fst d = w) (delivered st))"

text \<open>
  \<open>handleAutoIncludeDelivered\<close>: \<open>payload?.message?.request\<close>, then
  \<open>request && request.type === 'selection_changed' && request.selection?.autoInclude\<close>.
  The payload is never nullish here.
\<close>

definition handleAutoIncludeDelivered :: "payload \<Rightarrow> SelectionState \<Rightarrow> js_error + SelectionState" where
  "handleAutoIncludeDelivered p ss =
     (let request = getprop_opt (message p) ''request'' in
      if \<not> truthy request then Inr ss
      else bind_js (getprop request ''type'') (\<lambda>t.
           if t \<noteq> JStr ''selection_changed'' then Inr ss
           else bind_js (getprop request ''selection'') (\<lambda>selection.
                if truthy (getprop_opt selection ''autoInclude'')
                then Inr (clearAutoInclude ss) else Inr ss)))"

text \<open>\<open>enqueuePendingMessage\<close>: push, then one \<open>shift\<close> when the length exceeds the bound.\<close>

definition enqueuePendingMessage :: "jsval \<Rightarrow> 'w WebViewService \<Rightarrow> 'w WebViewService" where
  "enqueuePendingMessage m st =
     (let pushed = pendingMessages st @ [from_extension m] in
      st\<lparr>pendingMessages := (if length pushed > MAX_PENDING_MESSAGES then tl pushed else pushed)\<rparr>)"

text \<open>
  The test that makes both loops \<open>continue\<close>:
  \<open>!config || config.host !== 'sidebar' || (config.page && config.page !== 'chat')\<close>.
\<close>

definition not_addressed :: "WebviewBootstrapConfig option \<Rightarrow> bool" where
  "not_addressed config =
     (case config of
        None \<Rightarrow> True
      | Some c \<Rightarrow> host c \<noteq> Sidebar
           \<or> (case page c of None \<Rightarrow> False | Some pg \<Rightarrow> pg \<noteq> [] \<and> pg \<noteq> ''chat''))"

text \<open>
  The body of the \<open>try\<close> block of both loops: the send, then
  \<open>handleAutoIncludeDelivered\<close>. The result is the exception, if one was thrown, and the
  state at that point (what happened before a throw stays done).
\<close>

definition try_send ::
  "'w host_api \<Rightarrow> 'w \<Rightarrow> payload \<Rightarrow> 'w WebViewService \<Rightarrow> js_error option \<times> bool \<times> 'w WebViewService" where
  "try_send throws w p st =
     (case webview_postMessage throws w p st of
        Inl e \<Rightarrow> (Some e, False, st)
      | Inr st1 \<Rightarrow>
          (case handleAutoIncludeDelivered p (selectionState st1) of
             Inl e \<Rightarrow> (Some e, True, st1)
           | Inr ss \<Rightarrow> (None, True, st1\<lparr>selectionState := ss\<rparr>)))"

text \<open>
  The loop of \<open>postMessage\<close> over \<open>this.webviews\<close>; its variables are the service,
  \<open>toRemove\<close> and \<open>delivered\<close> (here \<open>sent\<close>). The middle component of \<open>try_send\<close> tells
  whether \<open>delivered = true\<close> was reached.
\<close>

fun post_loop ::
  "'w host_api \<Rightarrow> payload \<Rightarrow> 'w list \<Rightarrow> 'w WebViewService \<times> 'w list \<times> bool
     \<Rightarrow> 'w WebViewService \<times> 'w list \<times> bool" where
  "post_loop throws p [] acc = acc"
| "post_loop throws p (w # ws) (st, toRemove, sent) =
     (if w \<notin> set (readyWebviews st) then post_loop throws p ws (st, toRemove, sent)
      else if not_addressed (webviewConfigs st w) then post_loop throws p ws (st, toRemove, sent)
      else (case try_send throws w p st of
              (None, reached, st1) \<Rightarrow> post_loop throws p ws (st1, toRemove, sent \<or> reached)
            | (Some e, reached, st1) \<Rightarrow> post_loop throws p ws (st1, toRemove @ [w], sent \<or> reached)))"

definition postMessage :: "'w host_api \<Rightarrow> jsval \<Rightarrow> 'w WebViewService \<Rightarrow> 'w WebViewService" where
  "postMessage throws m st =
     (if length (webviews st) = 0 then enqueuePendingMessage m st
      else
        (case post_loop throws (from_extension m) (webviews st) (st, [], False) of
           (st1, toRemove, sent) \<Rightarrow>
             fold forget_webview toRemove (if \<not> sent then enqueuePendingMessage m st1 else st1)))"

text \<open>
  \<open>flushPendingMessages\<close>. The inner loop replays the buffer to one webview and, at the
  first throw, forgets the webview and breaks. The outer loop runs over \<open>readyWebviews\<close>;
  the only element deleted while it runs is the current one, so it visits the elements
  the set had at the start, in order. The buffer is emptied after the loops.
\<close>

fun flush_payloads ::
  "'w host_api \<Rightarrow> 'w \<Rightarrow> payload list \<Rightarrow> 'w WebViewService \<Rightarrow> 'w WebViewService" where
  "flush_payloads throws w [] st = st"
| "flush_payloads throws w (p # ps) st =
     (case try_send throws w p st of
        (None, reached, st1) \<Rightarrow> flush_payloads throws w ps st1
      | (Some e, reached, st1) \<Rightarrow> forget_webview w st1)"

definition flush_target :: "'w host_api \<Rightarrow> 'w \<Rightarrow> 'w WebViewService \<Rightarrow> 'w WebViewService" where
  "flush_target throws w st =
     (if not_addressed (webviewConfigs st w) then st
      else flush_payloads throws w (pendingMessages st) st)"

definition flushPendingMessages :: "'w host_api \<Rightarrow> 'w WebViewService \<Rightarrow> 'w WebViewService" where
  "flushPendingMessages throws st =
     (if length (readyWebviews st) = 0 \<or> length (pendingMessages st) = 0 then st
      else (fold (flush_target throws) (readyWebviews st) st)\<lparr>pendingMessages := []\<rparr>)"

text \<open>\<open>markWebviewReady\<close>: the early return, then \<open>readyWebviews.add\<close> and the flush.\<close>

definition add_ready :: "'w \<Rightarrow> 'w WebViewService \<Rightarrow> 'w WebViewService" where
  "add_ready w st = st\<lparr>readyWebviews := Set_add w (readyWebviews st)\<rparr>"

definition markWebviewReady :: "'w host_api \<Rightarrow> 'w \<Rightarrow> 'w WebViewService \<Rightarrow> 'w WebViewService" where
  "markWebviewReady throws w st =
     (if w \<in> set (readyWebviews st) then st
      else flushPendingMessages throws (add_ready w st))"

text \<open>
  \<open>registerWebview\<close> (the parts that touch the service: the set and the map), and the
  configuration \<open>resolveWebviewView\<close> registers the sidebar view with.
\<close>

definition registerWebview ::
  "'w \<Rightarrow> WebviewBootstrapConfig \<Rightarrow> 'w WebViewService \<Rightarrow> 'w WebViewService" where
  "registerWebview w bootstrap st =
     st\<lparr>webviews := Set_add w (webviews st), webviewConfigs := (webviewConfigs st)(w \<mapsto> bootstrap)\<rparr>"

definition sidebar_chat :: WebviewBootstrapConfig where
  "sidebar_chat = \<lparr>host = Sidebar, page = Some ''chat'', id' = None\<rparr>"

text \<open>
  What happens to the service from outside: a webview is registered, is disposed
  (\<open>onDidDispose\<close>), sends a message (\<open>onDidReceiveMessage\<close>, which marks it ready), or the
  extension posts a message.
\<close>

datatype 'w event =
    Register 'w WebviewBootstrapConfig
  | Dispose 'w
  | Inbound 'w
  | Post jsval

fun service_step :: "'w host_api \<Rightarrow> 'w WebViewService \<Rightarrow> 'w event \<Rightarrow> 'w WebViewService" where
  "service_step throws st (Register w bootstrap) = registerWebview w bootstrap st"
| "service_step throws st (Dispose w) = forget_webview w st"
| "service_step throws st (Inbound w) = markWebviewReady throws w st"
| "service_step throws st (Post m) = postMessage throws m st"

definition service_run :: "'w host_api \<Rightarrow> 'w event list \<Rightarrow> 'w WebViewService" where
  "service_run throws evs = foldl (service_step throws) service_init evs"

text \<open>A webview that is ready and addressed: the ones both loops send to.\<close>

definition eligible :: "'w WebViewService \<Rightarrow> 'w \<Rightarrow> bool" where
  "eligible st w = (w \<in> set (readyWebviews st) \<and> \<not> not_addressed (webviewConfigs st w))"

text \<open>
  How two states of the service compare at one webview: \<open>forgotten\<close>, it is in none of
  the three collections; \<open>tracked_alike\<close>, it is in the same ones as before, with the same
  configuration; \<open>untouched\<close>, moreover it has accepted nothing new; \<open>replayed\<close>, it has
  accepted a prefix of the buffer, in order, on top of what it had: the whole buffer and
  it is tracked as before, or a proper prefix and it is forgotten.
\<close>

definition forgotten :: "'w WebViewService \<Rightarrow> 'w \<Rightarrow> bool" where
  "forgotten st w =
     (w \<notin> set (webviews st) \<and> w \<notin> set (readyWebviews st) \<and> webviewConfigs st w = None)"

definition tracked_alike :: "'w WebViewService \<Rightarrow> 'w WebViewService \<Rightarrow> 'w \<Rightarrow> bool" where
  "tracked_alike st st' w =
     ((w \<in> set (webviews st')) = (w \<in> set (webviews st))
      \<and> (w \<in> set (readyWebviews st')) = (w \<in> set (readyWebviews st))
      \<and> webviewConfigs st' w = webviewConfigs st w)"

definition untouched :: "'w WebViewService \<Rightarrow> 'w WebViewService \<Rightarrow> 'w \<Rightarrow> bool" where
  "untouched st st' w = (delivered_to w st' = delivered_to w st \<and> tracked_alike st st' w)"

definition replayed :: "'w WebViewService \<Rightarrow> 'w WebViewService \<Rightarrow> payload list \<Rightarrow> 'w \<Rightarrow> bool" where
  "replayed st st' buf w =
     (\<exists>k\<in>{0..length buf}.
        delivered_to w st' = delivered_to w st @ take k buf
        \<and> (if k = length buf then tracked_alike st st' w else forgotten st' w))"

text \<open>A host on which no send ever throws, and one on which webview \<open>0\<close> always throws.\<close>

definition never_throws :: "nat host_api" where
  "never_throws log w p = False"

definition zero_throws :: "nat host_api" where
  "zero_throws log w p = (w = 0)"

text \<open>The messages \<open>0, 1, ..., n - 1\<close>.\<close>

definition numbered :: "nat \<Rightarrow> jsval list" where
  "numbered n = map (\<lambda>i. JNum (int i) 0) [0..<n]"

text \<open>
  The scenario of claim C6: a message is posted, then \<open>w\<close> is registered as the sidebar
  chat view and sends its first message.
\<close>

definition buffer_then_ready :: "'w host_api \<Rightarrow> jsval \<Rightarrow> 'w \<Rightarrow> 'w WebViewService \<Rightarrow> 'w WebViewService" where
  "buffer_then_ready throws m w st =
     markWebviewReady throws w (registerWebview w sidebar_chat (postMessage throws m st))"

text \<open>Services used in the concrete evaluations below.\<close>

definition two_ready :: "nat WebViewService" where
  "two_ready = service_run never_throws
     [Register 0 sidebar_chat, Register 1 sidebar_chat, Inbound 0, Inbound 1]"

definition only_zero_ready :: "nat WebViewService" where
  "only_zero_ready = service_run never_throws [Register 0 sidebar_chat, Inbound 0]"

text \<open>
  An editor page, as \<open>openEditorPage('settings', ...)\<close> registers it, and two services that
  hold two buffered messages: in \<open>buffered_editor\<close> the only webview is the editor page
  \<open>1\<close>; in \<open>buffered_failing\<close> it is the sidebar chat view \<open>0\<close>, whose sends throw.
\<close>

definition editor_settings :: WebviewBootstrapConfig where
  "editor_settings = \<lparr>host = Editor, page = Some ''settings'', id' = Some ''settings''\<rparr>"

definition buffered_editor :: "nat WebViewService" where
  "buffered_editor = service_run never_throws
     [Post (JStr ''a''), Post (JStr ''b''), Register 1 editor_settings]"

definition buffered_failing :: "nat WebViewService" where
  "buffered_failing = service_run zero_throws
     [Post (JStr ''a''), Post (JStr ''b''), Register 0 sidebar_chat]"

section \<open>String methods and regular expressions of the runtime\<close>

text \<open>\<open>startsWith\<close>, \<open>includes\<close>, \<open>trim\<close> and the last segment of \<open>split('/')\<close>.\<close>

fun startsWith :: "string \<Rightarrow> string \<Rightarrow> bool" where
  "startsWith s [] = True"
| "startsWith [] (p # ps) = False"
| "startsWith (c # cs) (p # ps) = (c = p \<and> startsWith cs ps)"

fun includes_text :: "string \<Rightarrow> string \<Rightarrow> bool" where
  "includes_text [] sub = startsWith [] sub"
| "includes_text (c # cs) sub = (startsWith (c # cs) sub \<or> includes_text cs sub)"

text \<open>
  The white space of \<open>\s\<close> and of \<open>trim\<close> (white space and line terminators) among the
  code units up to U+00FF: tab, line feed, vertical tab, form feed, carriage return,
  space and the no-break space.
\<close>

definition is_space :: "char \<Rightarrow> bool" where
  "is_space c = (c = CHR 0x09 \<or> c = CHR 0x0A \<or> c = CHR 0x0B \<or> c = CHR 0x0C \<or> c = CHR 0x0D
     \<or> c = CHR 0x20 \<or> c = CHR 0xA0)"

definition is_digit :: "char \<Rightarrow> bool" where
  "is_digit c = (c \<in> set ''0123456789'')"

definition is_newline :: "char \<Rightarrow> bool" where
  "is_newline c = (c = CHR 0x0A)"

definition not_colon :: "char \<Rightarrow> bool" where
  "not_colon c = (c \<noteq> CHR '':'')"

text \<open>\<open>[\s\S]\<close> matches every code unit; \<open>.\<close> every one but a line terminator.\<close>

definition any_char :: "char \<Rightarrow> bool" where
  "any_char c = True"

definition dot_char :: "char \<Rightarrow> bool" where
  "dot_char c = (c \<noteq> CHR 0x0A \<and> c \<noteq> CHR 0x0D)"

definition trim :: "string \<Rightarrow> string" where
  "trim s = rev (dropWhile is_space (rev (dropWhile is_space s)))"

text \<open>\<open>path.split('/').pop() || path\<close>: the text after the last slash unless it is empty.\<close>

definition basename :: "string \<Rightarrow> string" where
  "basename path =
     (let name = rev (takeWhile (\<lambda>c. c \<noteq> CHR ''/'') (rev path)) in
      if name = [] then path else name)"

text \<open>
  The regular expressions of the source are sequences of literals, alternatives of
  literals, and quantified character classes, some of them captured. \<open>Rep cls n greedy
  captured\<close> is the class \<open>cls\<close> repeated at least \<open>n\<close> times (\<open>+\<close> is \<open>n = 1\<close>, \<open>*\<close> is
  \<open>n = 0\<close>), greedy or lazy (\<open>*?\<close>, \<open>+?\<close>); \<open>Alt\<close> lists its alternatives in the order the
  matcher tries them (\<open>(?:the )?\<close> is \<open>Alt [''the '', '''']\<close>); \<open>End\<close> is \<open>$\<close>.
\<close>

datatype rx_item =
    Lit string
  | Alt "string list"
  | Rep "char \<Rightarrow> bool" nat bool bool
  | End

fun first_of :: "('a \<Rightarrow> 'b option) \<Rightarrow> 'a list \<Rightarrow> 'b option" where
  "first_of f [] = None"
| "first_of f (x # xs) = (case f x of Some y \<Rightarrow> Some y | None \<Rightarrow> first_of f xs)"

text \<open>
  Backtracking match at the start of \<open>s\<close>: the choices of each item are tried in the
  order of the matcher (a greedy quantifier from the longest run down, a lazy one from
  the shortest up) and the first choice for which the rest of the expression matches
  wins. The result is the captured groups, in order, and the text after the match:
  the group \<open>m[k]\<close> of the source is the element \<open>k - 1\<close> of the list (\<open>m[1]\<close> is \<open>m ! 0\<close>).
\<close>

fun rx_match :: "rx_item list \<Rightarrow> string \<Rightarrow> (string list \<times> string) option" where
  "rx_match [] s = Some ([], s)"
| "rx_match (Lit l # r) s = (if startsWith s l then rx_match r (drop (length l) s) else None)"
| "rx_match (Alt ls # r) s =
     first_of (\<lambda>l. if startsWith s l then rx_match r (drop (length l) s) else None) ls"
| "rx_match (Rep cls n greedy captured # r) s =
     (let longest = length (takeWhile cls s);
          lens = (if greedy then rev [n..<Suc longest] else [n..<Suc longest])
      in first_of (\<lambda>k. case rx_match r (drop k s) of
                          None \<Rightarrow> None
                        | Some (groups, rest) \<Rightarrow>
                            Some (if captured then take k s # groups else groups, rest)) lens)"
| "rx_match (End # r) s = (if s = [] then rx_match r s else None)"

text \<open>
  The search of \<open>String.prototype.match\<close> and \<open>replace\<close> for a non-global expression: the
  leftmost start position with a match. The result is the text before the match, the
  groups and the text after it.
\<close>

fun rx_search :: "rx_item list \<Rightarrow> string \<Rightarrow> string \<Rightarrow> (string \<times> string list \<times> string) option" where
  "rx_search re pre [] =
     (case rx_match re [] of Some (groups, rest) \<Rightarrow> Some (pre, groups, rest) | None \<Rightarrow> None)"
| "rx_search re pre (c # cs) =
     (case rx_match re (c # cs) of
        Some (groups, rest) \<Rightarrow> Some (pre, groups, rest)
      | None \<Rightarrow> rx_search re (pre @ [c]) cs)"

definition match :: "string \<Rightarrow> rx_item list \<Rightarrow> string list option" where
  "match s re = (case rx_search re [] s of Some (pre, groups, rest) \<Rightarrow> Some groups | None \<Rightarrow> None)"

definition replace :: "string \<Rightarrow> rx_item list \<Rightarrow> string \<Rightarrow> string" where
  "replace s re new =
     (case rx_search re [] s of Some (pre, groups, rest) \<Rightarrow> pre @ new @ rest | None \<Rightarrow> s)"

text \<open>
  The integer that a run of decimal digits writes, and \<open>parseInt(digits, 10)\<close> on a
  non-empty run of decimal digits: the double nearest to that integer, which is an
  integer again (\<open>Line n\<close>), or \<open>Infinity\<close> when the run is too long for a double (from
  309 digits on). For a run of more than twenty significant digits the standard lets
  an engine read the digits after the twentieth as zeros; the embedding rounds the
  integer as it is written.
\<close>

definition digit_value :: "char \<Rightarrow> int" where
  "digit_value c = int (length (takeWhile (\<lambda>d. d \<noteq> c) ''0123456789''))"

definition digits_value :: "string \<Rightarrow> int" where
  "digits_value digits = foldl (\<lambda>n c. 10 * n + digit_value c) 0 digits"

datatype line_number = Line int | Infinite_line

definition parseInt :: "string \<Rightarrow> line_number" where
  "parseInt digits =
     (case to_double (digits_value digits) 1 of
        Double M E \<Rightarrow> Line (M * 2 ^ nat E div 2 ^ nat (- E))
      | Infinity \<Rightarrow> Infinite_line)"

section \<open>String conversion and JSON of the runtime\<close>

text \<open>
  How a number is printed (\<open>Number::toString\<close>, which \<open>String(n)\<close>, a template literal and
  \<open>JSON.stringify(n)\<close> use). The digits are the shortest decimal \<open>s * 10^e\<close> that reads back
  as the same double, the nearest to the double if there are several; with \<open>k\<close> digits and
  the decimal point after the \<open>n\<close>-th of them, the number is printed plainly for
  \<open>- 6 < n \<le> 21\<close> and with an exponent otherwise.
\<close>

function decimal :: "int \<Rightarrow> string" where
  "decimal n =
     (if n < 10 then [''0123456789'' ! nat n]
      else decimal (n div 10) @ [''0123456789'' ! nat (n mod 10)])"
  by pat_completeness auto

termination
  by (relation "measure nat") auto

declare decimal.simps [simp del]

text \<open>\<open>magnitude a b\<close> is the \<open>n\<close> with \<open>10^(n - 1) \<le> a / b < 10^n\<close>.\<close>

definition magnitude :: "int \<Rightarrow> int \<Rightarrow> int" where
  "magnitude a b =
     (if b \<le> a then int (length (decimal (a div b)))
      else 1 - int (length (decimal ((b - 1) div a))))"

text \<open>
  The decimal of \<open>k\<close> digits that reads back as the double \<open>a / b\<close>, if there is one: of the
  two decimals of \<open>k\<close> digits around \<open>a / b\<close>, the nearer that reads back, the even one when
  they are as near.
\<close>

definition decimal_near :: "int \<Rightarrow> int \<Rightarrow> nat \<Rightarrow> (int \<times> int) option" where
  "decimal_near a b k =
     (let e = magnitude a b - int k;
          num = a * 10 ^ nat (- e);
          den = b * 10 ^ nat e;
          lo = num div den;
          r = num mod den;
          same = (\<lambda>s. to_double (s * 10 ^ nat e) (10 ^ nat (- e)) = to_double a b);
          upper = (den < 2 * r \<or> (2 * r = den \<and> odd lo))
      in if same lo \<and> (\<not> upper \<or> \<not> same (lo + 1)) then Some (lo, e)
         else if same (lo + 1) then Some (lo + 1, e)
         else None)"

text \<open>Seventeen digits always read back.\<close>

definition shortest_decimal :: "int \<Rightarrow> int \<Rightarrow> int \<times> int" where
  "shortest_decimal a b =
     (case first_of (decimal_near a b) [1..<18] of Some r \<Rightarrow> r | None \<Rightarrow> (a div b, 0))"

definition Number_toString :: "double \<Rightarrow> string" where
  "Number_toString x =
     (case x of
        Infinity \<Rightarrow> ''Infinity''
      | Double M E \<Rightarrow>
          if M = 0 then ''0''
          else
            (case shortest_decimal (M * 2 ^ nat E) (2 ^ nat (- E)) of
               (s, e) \<Rightarrow>
                 (let n = int (length (decimal s)) + e;
                      digits = rev (dropWhile (\<lambda>c. c = CHR ''0'') (rev (decimal s)));
                      k = int (length digits)
                  in if k \<le> n \<and> n \<le> 21 then digits @ replicate (nat (n - k)) CHR ''0''
                     else if 0 < n \<and> n \<le> 21 then take (nat n) digits @ ''.'' @ drop (nat n) digits
                     else if - 6 < n \<and> n \<le> 0 then ''0.'' @ replicate (nat (- n)) CHR ''0'' @ digits
                     else take 1 digits @ (if k = 1 then [] else ''.'' @ drop 1 digits) @ ''e''
                          @ (if 0 < n then ''+'' else ''-'') @ decimal \<bar>n - 1\<bar>)))"

text \<open>The number \<open>JNum m e\<close> printed: the sign, unless the number is zero.\<close>

definition showNum :: "int \<Rightarrow> int \<Rightarrow> string" where
  "showNum m e =
     (if m < 0 \<and> double_of m e \<noteq> Double 0 0 then ''-'' else []) @ Number_toString (double_of m e)"

text \<open>A line number, which is a result of \<open>parseInt\<close>, printed in a template literal.\<close>

definition showLine :: "line_number \<Rightarrow> string" where
  "showLine n = (case n of Line k \<Rightarrow> Number_toString (to_double k 1) | Infinite_line \<Rightarrow> ''Infinity'')"

text \<open>\<open>Array.prototype.join\<close> with a separator.\<close>

fun join :: "string \<Rightarrow> string list \<Rightarrow> string" where
  "join sep [] = []"
| "join sep [x] = x"
| "join sep (x # y # ys) = x @ sep @ join sep (y # ys)"

text \<open>
  The call stack of the engine is finite. \<open>Array.prototype.join\<close>, by which an array is
  converted to a string, and \<open>JSON.stringify\<close> recurse through the value, and throw a
  \<open>RangeError\<close> when the nesting is more than the stack holds. How much it holds is not
  decided by the source, so it is a parameter of the embedding: \<open>join_overflow g v\<close> says
  that the stack is exhausted when the conversion reaches the array \<open>v\<close>,
  \<open>stringify_overflow g v\<close> that it is when the dump reaches the array or object \<open>v\<close>.
  \<open>ample_stack\<close> is an engine whose stack is never exhausted. The other limits of an
  engine (its memory, the greatest length of a string) are not part of the embedding.
\<close>

record engine =
  join_overflow :: "jsval \<Rightarrow> bool"
  stringify_overflow :: "jsval \<Rightarrow> bool"

definition ample_stack :: engine where
  "ample_stack = \<lparr>join_overflow = (\<lambda>v. False), stringify_overflow = (\<lambda>v. False)\<rparr>"

text \<open>
  \<open>String(v)\<close>. An array prints its elements joined by commas, \<open>null\<close> and \<open>undefined\<close>
  elements as the empty string. An object is converted by its \<open>toString\<close> method: the
  one inherited from \<open>Object.prototype\<close> prints \<open>[object Object]\<close>; an own property
  \<open>toString\<close> hides it, and as no value decoded from JSON is a function, and the
  inherited \<open>valueOf\<close> returns the object itself, the conversion then throws a
  \<open>TypeError\<close>.
\<close>

fun to_String :: "engine \<Rightarrow> jsval \<Rightarrow> js_error + string"
  and join_elements :: "engine \<Rightarrow> jsval list \<Rightarrow> js_error + string list" where
  "to_String g JUndefined = Inr ''undefined''"
| "to_String g JNull = Inr ''null''"
| "to_String g (JBool b) = Inr (if b then ''true'' else ''false'')"
| "to_String g (JNum m e) = Inr (showNum m e)"
| "to_String g (JStr s) = Inr s"
| "to_String g (JArr xs) =
     (if join_overflow g (JArr xs) then Inl RangeError
      else bind_js (join_elements g xs) (\<lambda>strings. Inr (join '','' strings)))"
| "to_String g (JObj ps) =
     (if ''toString'' \<in> fst ` set ps then Inl TypeError else Inr ''[object Object]'')"
| "join_elements g [] = Inr []"
| "join_elements g (x # xs) =
     bind_js (if x = JUndefined \<or> x = JNull then Inr [] else to_String g x) (\<lambda>s.
     bind_js (join_elements g xs) (\<lambda>strings. Inr (s # strings)))"

text \<open>\<open>JSON.stringify\<close> of a string: quotes, with the escapes of the standard.\<close>

definition quote_char :: "char \<Rightarrow> string" where
  "quote_char c =
     (if c = CHR 0x22 then [CHR 0x5C, CHR 0x22]
      else if c = CHR 0x5C then [CHR 0x5C, CHR 0x5C]
      else if c = CHR 0x08 then [CHR 0x5C, CHR ''b'']
      else if c = CHR 0x0C then [CHR 0x5C, CHR ''f'']
      else if c = CHR 0x0A then [CHR 0x5C, CHR ''n'']
      else if c = CHR 0x0D then [CHR 0x5C, CHR ''r'']
      else if c = CHR 0x09 then [CHR 0x5C, CHR ''t'']
      else if (of_char c :: nat) < 32
      then [CHR 0x5C, CHR ''u'', CHR ''0'', CHR ''0'',
            ''0123456789abcdef'' ! (of_char c div 16), ''0123456789abcdef'' ! (of_char c mod 16)]
      else [c])"

definition quote :: "string \<Rightarrow> string" where
  "quote s = [CHR 0x22] @ concat (map quote_char s) @ [CHR 0x22]"

text \<open>
  \<open>JSON.stringify(v)\<close>, \<open>None\<close> for the result \<open>undefined\<close>. A property whose value is
  \<open>undefined\<close> is left out of an object; an \<open>undefined\<close> element of an array prints as
  \<open>null\<close>, and so does a number that is not finite.
\<close>

fun stringify :: "engine \<Rightarrow> jsval \<Rightarrow> js_error + string option"
  and stringify_elements :: "engine \<Rightarrow> jsval list \<Rightarrow> js_error + string list"
  and stringify_properties :: "engine \<Rightarrow> (string \<times> jsval) list \<Rightarrow> js_error + string list" where
  "stringify g JUndefined = Inr None"
| "stringify g JNull = Inr (Some ''null'')"
| "stringify g (JBool b) = Inr (Some (if b then ''true'' else ''false''))"
| "stringify g (JNum m e) = Inr (Some (if double_of m e = Infinity then ''null'' else showNum m e))"
| "stringify g (JStr s) = Inr (Some (quote s))"
| "stringify g (JArr xs) =
     (if stringify_overflow g (JArr xs) then Inl RangeError
      else bind_js (stringify_elements g xs) (\<lambda>items. Inr (Some (''['' @ join '','' items @ '']''))))"
| "stringify g (JObj ps) =
     (if stringify_overflow g (JObj ps) then Inl RangeError
      else bind_js (stringify_properties g ps) (\<lambda>items. Inr (Some (''{'' @ join '','' items @ ''}''))))"
| "stringify_elements g [] = Inr []"
| "stringify_elements g (x # xs) =
     bind_js (stringify g x) (\<lambda>item.
     bind_js (stringify_elements g xs) (\<lambda>items.
       Inr ((case item of None \<Rightarrow> ''null'' | Some t \<Rightarrow> t) # items)))"
| "stringify_properties g [] = Inr []"
| "stringify_properties g (p # ps) =
     bind_js (stringify g (snd p)) (\<lambda>item.
     bind_js (stringify_properties g ps) (\<lambda>items.
       Inr ((case item of None \<Rightarrow> [] | Some t \<Rightarrow> [quote (fst p) @ '':'' @ t]) @ items)))"

text \<open>
  \<open>JSON.parse\<close>, in two passes: the tokens, then the values. A string token is decoded;
  of a \<open>\u\<close> escape the embedding keeps the low eight bits, the strings here being over
  the code units up to U+00FF. A number token keeps its digits and its exponent: it is
  the literal of the number.
\<close>

datatype jtoken = TLBrace | TRBrace | TLBrack | TRBrack | TColon | TComma | TValue jsval

definition json_ws :: "char \<Rightarrow> bool" where
  "json_ws c = (c = CHR 0x20 \<or> c = CHR 0x09 \<or> c = CHR 0x0A \<or> c = CHR 0x0D)"

definition hex_value :: "char \<Rightarrow> nat option" where
  "hex_value c =
     (if c \<in> set ''0123456789abcdef'' then Some (length (takeWhile (\<lambda>d. d \<noteq> c) ''0123456789abcdef''))
      else if c \<in> set ''ABCDEF'' then Some (10 + length (takeWhile (\<lambda>d. d \<noteq> c) ''ABCDEF''))
      else None)"

definition hex4 :: "string \<Rightarrow> nat option" where
  "hex4 s =
     (case map hex_value s of
        [Some a, Some b, Some c, Some d] \<Rightarrow> Some (((a * 16 + b) * 16 + c) * 16 + d)
      | _ \<Rightarrow> None)"

definition simple_escape :: "char \<Rightarrow> char option" where
  "simple_escape c =
     (if c = CHR 0x22 \<or> c = CHR 0x5C \<or> c = CHR ''/'' then Some c
      else if c = CHR ''b'' then Some (CHR 0x08)
      else if c = CHR ''f'' then Some (CHR 0x0C)
      else if c = CHR ''n'' then Some (CHR 0x0A)
      else if c = CHR ''r'' then Some (CHR 0x0D)
      else if c = CHR ''t'' then Some (CHR 0x09)
      else None)"

text \<open>
  The text after an opening quote: the decoded string and the number of characters read,
  the closing quote included.
\<close>

fun lex_string :: "string \<Rightarrow> (string \<times> nat) option" where
  "lex_string [] = None"
| "lex_string (c # cs) =
     (if c = CHR 0x22 then Some ([], 1)
      else if c = CHR 0x5C then
        (case cs of
           [] \<Rightarrow> None
         | e # cs' \<Rightarrow>
             if e = CHR ''u'' then
               (case hex4 (take 4 cs') of
                  None \<Rightarrow> None
                | Some u \<Rightarrow> map_option (\<lambda>(s, n). (char_of u # s, n + 6)) (lex_string (drop 4 cs')))
             else
               (case simple_escape e of
                  None \<Rightarrow> None
                | Some d \<Rightarrow> map_option (\<lambda>(s, n). (d # s, n + 2)) (lex_string cs')))
      else if (of_char c :: nat) < 32 then None
      else map_option (\<lambda>(s, n). (c # s, Suc n)) (lex_string cs))"

text \<open>
  A number at the start of the text: \<open>-? (0 | [1-9][0-9]*) (. [0-9]+)? ([eE] [+-]? [0-9]+)?\<close>.
  The result is the number and how many characters it takes.
\<close>

definition lex_number :: "string \<Rightarrow> (jsval \<times> nat) option" where
  "lex_number s =
     (let negative = startsWith s ''-'';
          s1 = (if negative then drop 1 s else s);
          ds = takeWhile is_digit s1;
          s2 = drop (length ds) s1;
          has_frac = startsWith s2 ''.'';
          fs = (if has_frac then takeWhile is_digit (drop 1 s2) else []);
          s3 = (if has_frac then drop (Suc (length fs)) s2 else s2);
          has_exp = (startsWith s3 ''e'' \<or> startsWith s3 ''E'');
          s4 = (if has_exp then drop 1 s3 else s3);
          exp_negative = (has_exp \<and> startsWith s4 ''-'');
          signed = (has_exp \<and> (startsWith s4 ''-'' \<or> startsWith s4 ''+''));
          s5 = (if signed then drop 1 s4 else s4);
          es = (if has_exp then takeWhile is_digit s5 else []);
          s6 = drop (length es) s5
      in if ds = [] \<or> (startsWith ds ''0'' \<and> length ds > 1) \<or> (has_frac \<and> fs = []) \<or> (has_exp \<and> es = [])
         then None
         else Some (JNum ((if negative then - 1 else 1) * digits_value (ds @ fs))
                         ((if exp_negative then - 1 else 1) * digits_value es - int (length fs)),
                    length s - length s6))"

fun json_lex :: "string \<Rightarrow> jtoken list option" where
  "json_lex [] = Some []"
| "json_lex (c # cs) =
     (if json_ws c then json_lex cs
      else if c = CHR ''{'' then map_option ((#) TLBrace) (json_lex cs)
      else if c = CHR ''}'' then map_option ((#) TRBrace) (json_lex cs)
      else if c = CHR ''['' then map_option ((#) TLBrack) (json_lex cs)
      else if c = CHR '']'' then map_option ((#) TRBrack) (json_lex cs)
      else if c = CHR '':'' then map_option ((#) TColon) (json_lex cs)
      else if c = CHR '','' then map_option ((#) TComma) (json_lex cs)
      else if c = CHR 0x22 then
        (case lex_string cs of
           None \<Rightarrow> None
         | Some (s, n) \<Rightarrow> map_option ((#) (TValue (JStr s))) (json_lex (drop n cs)))
      else if c = CHR ''-'' \<or> is_digit c then
        (case lex_number (c # cs) of
           None \<Rightarrow> None
         | Some (v, n) \<Rightarrow> map_option ((#) (TValue v)) (json_lex (drop (n - 1) cs)))
      else if startsWith (c # cs) ''true'' then map_option ((#) (TValue (JBool True))) (json_lex (drop 3 cs))
      else if startsWith (c # cs) ''false'' then map_option ((#) (TValue (JBool False))) (json_lex (drop 4 cs))
      else if startsWith (c # cs) ''null'' then map_option ((#) (TValue JNull)) (json_lex (drop 3 cs))
      else None)"

text \<open>
  The values, with an explicit stack of the arrays and objects that are open. A key that
  occurs again in an object replaces the earlier value.
\<close>

datatype jmode = WantValue | WantValueOrEnd | WantKeyOrEnd | WantKey | WantColon | HaveValue jsval

datatype jctx = InArr "jsval list" | InObj "(string \<times> jsval) list" | InObjValue "(string \<times> jsval) list" string

definition put :: "(string \<times> jsval) list \<Rightarrow> string \<Rightarrow> jsval \<Rightarrow> (string \<times> jsval) list" where
  "put ps k v = (if k \<in> fst ` set ps then map (\<lambda>(k', v'). if k' = k then (k', v) else (k', v')) ps
                 else ps @ [(k, v)])"

text \<open>The start of a value: a scalar, or the opening of an array or an object.\<close>

definition open_value :: "jctx list \<Rightarrow> jtoken \<Rightarrow> (jmode \<times> jctx list) option" where
  "open_value stack t =
     (case t of
        TValue v \<Rightarrow> Some (HaveValue v, stack)
      | TLBrack \<Rightarrow> Some (WantValueOrEnd, InArr [] # stack)
      | TLBrace \<Rightarrow> Some (WantKeyOrEnd, InObj [] # stack)
      | _ \<Rightarrow> None)"

text \<open>A key of the object on top of the stack.\<close>

definition open_key :: "jctx list \<Rightarrow> jtoken \<Rightarrow> (jmode \<times> jctx list) option" where
  "open_key stack t =
     (case stack of
        InObj ps # rest \<Rightarrow>
          (case t of
             TValue v \<Rightarrow> (case v of JStr k \<Rightarrow> Some (WantColon, InObjValue ps k # rest) | _ \<Rightarrow> None)
           | _ \<Rightarrow> None)
      | _ \<Rightarrow> None)"

text \<open>One token in one mode: the next mode and stack, or \<open>None\<close> for a syntax error.\<close>

definition json_step :: "jmode \<Rightarrow> jctx list \<Rightarrow> jtoken \<Rightarrow> (jmode \<times> jctx list) option" where
  "json_step mode stack t =
     (case mode of
        HaveValue v \<Rightarrow>
          (case stack of
             [] \<Rightarrow> None
           | InArr vs # rest \<Rightarrow>
               if t = TComma then Some (WantValue, InArr (vs @ [v]) # rest)
               else if t = TRBrack then Some (HaveValue (JArr (vs @ [v])), rest)
               else None
           | InObj ps # rest \<Rightarrow> None
           | InObjValue ps k # rest \<Rightarrow>
               if t = TComma then Some (WantKey, InObj (put ps k v) # rest)
               else if t = TRBrace then Some (HaveValue (JObj (put ps k v)), rest)
               else None)
      | WantValue \<Rightarrow> open_value stack t
      | WantValueOrEnd \<Rightarrow>
          (case stack of
             InArr vs # rest \<Rightarrow> if t = TRBrack then Some (HaveValue (JArr vs), rest) else open_value stack t
           | _ \<Rightarrow> None)
      | WantKeyOrEnd \<Rightarrow>
          (case stack of
             InObj ps # rest \<Rightarrow> if t = TRBrace then Some (HaveValue (JObj ps), rest) else open_key stack t
           | _ \<Rightarrow> None)
      | WantKey \<Rightarrow> open_key stack t
      | WantColon \<Rightarrow> if t = TColon then Some (WantValue, stack) else None)"

fun json_run :: "jmode \<Rightarrow> jctx list \<Rightarrow> jtoken list \<Rightarrow> jsval option" where
  "json_run mode stack [] =
     (case mode of HaveValue v \<Rightarrow> (if stack = [] then Some v else None) | _ \<Rightarrow> None)"
| "json_run mode stack (t # ts) =
     (case json_step mode stack t of
        None \<Rightarrow> None
      | Some (mode', stack') \<Rightarrow> json_run mode' stack' ts)"

definition JSON_parse :: "string \<Rightarrow> js_error + jsval" where
  "JSON_parse s =
     (case json_lex s of
        None \<Rightarrow> Inl SyntaxError
      | Some ts \<Rightarrow> (case json_run WantValue [] ts of None \<Rightarrow> Inl SyntaxError | Some v \<Rightarrow> Inr v))"

section \<open>Content blocks (src/src/webview/src/models/ContentBlock.ts)\<close>

text \<open>
  The fields the parser copies from a raw fragment (\<open>source\<close>, \<open>title\<close>, \<open>content\<close>, ...)
  are whatever the fragment holds, so they are values of the runtime. The fields of a
  diagnostics entry are \<open>entry.field || default\<close>, again any value.
\<close>

datatype DiagnosticsEntry = DiagnosticsEntry jsval jsval jsval jsval jsval jsval

text \<open>
  What \<open>INTERRUPT_MESSAGES[text]\<close> can be when it is truthy: one of the two entries of
  the record, or a member that the record object inherits from \<open>Object.prototype\<close>.
\<close>

datatype record_lookup = Entry string | Inherited string

datatype ContentBlockType =
    TextBlock string "bool option"
  | ThinkingBlock string
  | ImageBlock jsval
  | DocumentBlock jsval jsval
  | InterruptBlock string record_lookup
  | SelectionBlock string string "line_number option" "line_number option" "string option"
  | OpenedFileBlock string string
  | DiagnosticsBlock "DiagnosticsEntry list"
  | SlashCommandResultBlock string bool
  | ToolUseContentBlock "(string \<times> jsval) list"
  | ToolResultBlock jsval jsval jsval

text \<open>
  The constructors carry the fields of the interfaces in their order: \<open>TextBlock text
  isSlashCommand\<close>, \<open>DocumentBlock title source\<close>, \<open>InterruptBlock message friendlyMessage\<close>,
  \<open>SelectionBlock filePath label startLine endLine selectedText\<close>, \<open>OpenedFileBlock filePath
  label\<close>, \<open>SlashCommandResultBlock result isError\<close>, \<open>ToolResultBlock tool_use_id content
  is_error\<close>, \<open>DiagnosticsEntry filePath line column message code severity\<close>; a tool-use
  block is the list of its properties.
\<close>

section \<open>Content block classifier (src/unnamed/part\_000)\<close>

definition INTERRUPT_MESSAGES :: "(string \<times> string) list" where
  "INTERRUPT_MESSAGES =
     [(''[Request interrupted by user]'', ''Interrupted''),
      (''[Request interrupted by user for tool use]'', ''Tool interrupted'')]"

definition Object_prototype_members :: "string list" where
  "Object_prototype_members =
     [''constructor'', ''__defineGetter__'', ''__defineSetter__'', ''hasOwnProperty'',
      ''__lookupGetter__'', ''__lookupSetter__'', ''isPrototypeOf'', ''propertyIsEnumerable'',
      ''toString'', ''valueOf'', ''__proto__'', ''toLocaleString'']"

text \<open>\<open>INTERRUPT_MESSAGES[text]\<close>, \<open>None\<close> for \<open>undefined\<close>; every other result is truthy.\<close>

definition lookup_interrupt :: "string \<Rightarrow> record_lookup option" where
  "lookup_interrupt text =
     (case map_of INTERRUPT_MESSAGES text of
        Some friendly \<Rightarrow> Some (Entry friendly)
      | None \<Rightarrow> if text \<in> set Object_prototype_members then Some (Inherited text) else None)"

definition TOOL_REJECTION_MARKER :: string where
  "TOOL_REJECTION_MARKER =
     ''The user doesn't want to proceed with this tool use. The tool use was rejected (eg. if it was a file edit, the new_string was NOT written to the file). STOP what you are doing and wait for the user to tell you how to proceed.''"

definition TOOL_REJECTION_PREFIX :: string where
  "TOOL_REJECTION_PREFIX =
     ''The user doesn't want to proceed with this tool use. The tool use was rejected (eg. if it was a file edit, the new_string was NOT written to the file). The user provided the following reason for the rejection: ''"

definition createTextBlock :: "string \<Rightarrow> ContentBlockType" where
  "createTextBlock text = TextBlock text None"

definition createThinkingBlock :: "string \<Rightarrow> ContentBlockType" where
  "createThinkingBlock thinking = ThinkingBlock thinking"

definition createImageBlock :: "jsval \<Rightarrow> js_error + ContentBlockType" where
  "createImageBlock raw = bind_js (getprop raw ''source'') (\<lambda>source. Inr (ImageBlock source))"

definition createDocumentBlock :: "jsval \<Rightarrow> js_error + ContentBlockType" where
  "createDocumentBlock raw =
     bind_js (getprop raw ''title'') (\<lambda>title.
     bind_js (getprop raw ''source'') (\<lambda>source. Inr (DocumentBlock title source)))"

text \<open>
  \<open>{ ...raw, toolResult: undefined }\<close>: the own properties of \<open>raw\<close>, with \<open>toolResult\<close>
  set to \<open>undefined\<close>. A value that is not an object has no own properties to spread
  (an array is never passed: it has no \<open>type\<close>).
\<close>

definition own_properties :: "jsval \<Rightarrow> (string \<times> jsval) list" where
  "own_properties v = (case v of JObj ps \<Rightarrow> ps | _ \<Rightarrow> [])"

definition createToolUseBlock :: "jsval \<Rightarrow> ContentBlockType" where
  "createToolUseBlock raw = ToolUseContentBlock (put (own_properties raw) ''toolResult'' JUndefined)"

definition createToolResultBlock :: "jsval \<Rightarrow> js_error + ContentBlockType" where
  "createToolResultBlock raw =
     bind_js (getprop raw ''tool_use_id'') (\<lambda>tool_use_id.
     bind_js (getprop raw ''content'') (\<lambda>content.
     bind_js (getprop raw ''is_error'') (\<lambda>is_error. Inr (ToolResultBlock tool_use_id content is_error))))"

text \<open>The regular expressions of the parsers, in the order of the source.\<close>

definition rx_file :: "rx_item list" where
  "rx_file = [Lit ''from '', Rep not_colon 1 True True, Lit '':'']"

definition rx_lines :: "rx_item list" where
  "rx_lines = [Lit ''lines '', Rep is_digit 1 True True, Lit '' to '', Rep is_digit 1 True True]"

definition rx_line :: "rx_item list" where
  "rx_line = [Lit ''line '', Rep is_digit 1 True True]"

definition rx_snippet :: "rx_item list" where
  "rx_snippet =
     [Lit ''from '', Rep not_colon 1 True False, Lit '':'', Rep is_space 0 True False,
      Rep any_char 0 False True, Rep is_newline 1 True False, Rep is_space 0 True False,
      Lit ''This may or may not be related'']"

definition rx_trailing_space :: "rx_item list" where
  "rx_trailing_space = [Rep is_space 0 True False, End]"

definition rx_opened :: "rx_item list" where
  "rx_opened =
     [Alt [''opened the file'', ''opened file''], Lit '' '', Rep dot_char 1 False True, Lit '' in '',
      Alt [''the '', ''''], Alt [''IDE'', ''editor'']]"

text \<open>\<open>/<tag>([\s\S]*?)<\/tag>/\<close>.\<close>

definition rx_tag :: "string \<Rightarrow> rx_item list" where
  "rx_tag name = [Lit (''<'' @ name @ ''>''), Rep any_char 0 False True, Lit (''</'' @ name @ ''>'')]"

text \<open>
  \<open>parseSelection\<close>. A line number is truthy when it is not \<open>0\<close>, which decides the
  label; the label prints the line numbers as a template literal does.
\<close>

definition parseSelection :: "string \<Rightarrow> ContentBlockType option" where
  "parseSelection text =
     (case match text rx_file of
        None \<Rightarrow> None
      | Some fileMatch \<Rightarrow>
          (let filePath = fileMatch ! 0;
               fileName = basename filePath;
               (startLine, endLine) =
                 (case match text rx_lines of
                    Some linesMatch \<Rightarrow> (Some (parseInt (linesMatch ! 0)), Some (parseInt (linesMatch ! 1)))
                  | None \<Rightarrow>
                      (case match text rx_line of
                         Some singleLineMatch \<Rightarrow> (Some (parseInt (singleLineMatch ! 0)), None)
                       | None \<Rightarrow> (None, None)));
               truthy_line = (\<lambda>line. case line of None \<Rightarrow> False | Some n \<Rightarrow> n \<noteq> Line 0);
               label =
                 (if truthy_line startLine \<and> truthy_line endLine
                  then fileName @ ''#'' @ showLine (the startLine) @ ''-'' @ showLine (the endLine)
                  else if truthy_line startLine then fileName @ ''#'' @ showLine (the startLine)
                  else fileName);
               selectedText =
                 (case match text rx_snippet of
                    Some snippetMatch \<Rightarrow> Some (replace (snippetMatch ! 0) rx_trailing_space [])
                  | None \<Rightarrow> None)
           in Some (SelectionBlock filePath label startLine endLine selectedText)))"

definition parseOpenedFile :: "string \<Rightarrow> ContentBlockType option" where
  "parseOpenedFile text =
     (case match text rx_opened of
        None \<Rightarrow> None
      | Some m \<Rightarrow> Some (OpenedFileBlock (m ! 0) (basename (m ! 0))))"

definition parseSlashCommandResult :: "string \<Rightarrow> ContentBlockType option" where
  "parseSlashCommandResult text =
     (case match text (rx_tag ''local-command-stderr'') of
        Some stderrMatch \<Rightarrow> Some (SlashCommandResultBlock (trim (stderrMatch ! 0)) True)
      | None \<Rightarrow>
          (case match text (rx_tag ''local-command-stdout'') of
             Some stdoutMatch \<Rightarrow> Some (SlashCommandResultBlock (trim (stdoutMatch ! 0)) False)
           | None \<Rightarrow> None))"

text \<open>\<open>a || b\<close> on values.\<close>

definition or_else :: "jsval \<Rightarrow> jsval \<Rightarrow> jsval" where
  "or_else a b = (if truthy a then a else b)"

text \<open>The callback of \<open>parsed.map\<close>: six property reads, each of which throws on \<open>null\<close>.\<close>

definition diagnostics_entry :: "jsval \<Rightarrow> js_error + DiagnosticsEntry" where
  "diagnostics_entry entry =
     bind_js (getprop entry ''filePath'') (\<lambda>filePath.
     bind_js (getprop entry ''line'') (\<lambda>line.
     bind_js (getprop entry ''column'') (\<lambda>column.
     bind_js (getprop entry ''message'') (\<lambda>message.
     bind_js (getprop entry ''code'') (\<lambda>code.
     bind_js (getprop entry ''severity'') (\<lambda>severity.
       Inr (DiagnosticsEntry (or_else filePath (JStr '''')) (or_else line (JNum 0 0))
              (or_else column (JNum 0 0)) (or_else message (JStr ''''))
              (or_else code (JStr '''')) (or_else severity (JStr '''')))))))))"

fun map_js :: "('a \<Rightarrow> js_error + 'b) \<Rightarrow> 'a list \<Rightarrow> js_error + 'b list" where
  "map_js f [] = Inr []"
| "map_js f (x # xs) = bind_js (f x) (\<lambda>y. bind_js (map_js f xs) (\<lambda>ys. Inr (y # ys)))"

text \<open>The body of the \<open>try\<close> block of \<open>parseDiagnostics\<close>, on the text of the inner tag.\<close>

definition diagnostics_try :: "string \<Rightarrow> js_error + ContentBlockType option" where
  "diagnostics_try body =
     bind_js (JSON_parse body) (\<lambda>parsed.
       case parsed of
         JArr entries \<Rightarrow>
           bind_js (map_js diagnostics_entry entries) (\<lambda>diagnostics. Inr (Some (DiagnosticsBlock diagnostics)))
       | _ \<Rightarrow> Inr None)"

definition parseDiagnostics :: "string \<Rightarrow> ContentBlockType option" where
  "parseDiagnostics text =
     (case match text (rx_tag ''post-tool-use-hook'') of
        None \<Rightarrow> None
      | Some hookMatch \<Rightarrow>
          (case match (hookMatch ! 0) (rx_tag ''ide_diagnostics'') of
             None \<Rightarrow> None
           | Some diagnosticsMatch \<Rightarrow>
               (case diagnostics_try (diagnosticsMatch ! 0) of
                  Inr result \<Rightarrow> result
                | Inl error \<Rightarrow> None)))"

definition parseSlashCommandText :: "string \<Rightarrow> string option" where
  "parseSlashCommandText text =
     (case match text (rx_tag ''command-name'') of
        None \<Rightarrow> None
      | Some commandNameMatch \<Rightarrow>
          (let command = trim (commandNameMatch ! 0);
               args = (case match text (rx_tag ''command-args'') of
                         Some commandArgsMatch \<Rightarrow> trim (commandArgsMatch ! 0)
                       | None \<Rightarrow> [])
           in Some (trim (command @ '' '' @ args))))"

text \<open>
  \<open>parseTextBlock\<close>: the rules in the order of the source; a rule that does not return
  falls to the next one.
\<close>

definition truthy_text :: "string option \<Rightarrow> bool" where
  "truthy_text t = (case t of None \<Rightarrow> False | Some s \<Rightarrow> s \<noteq> [])"

definition tool_rejection :: "string \<Rightarrow> bool" where
  "tool_rejection text = (text = TOOL_REJECTION_MARKER \<or> startsWith text TOOL_REJECTION_PREFIX)"

definition parseTextBlock :: "string \<Rightarrow> ContentBlockType list" where
  "parseTextBlock text =
     (if lookup_interrupt text \<noteq> None then [InterruptBlock text (the (lookup_interrupt text))]
      else if includes_text text ''<ide_selection>'' \<and> parseSelection text \<noteq> None
      then [the (parseSelection text)]
      else if includes_text text ''<ide_opened_file>'' \<and> parseOpenedFile text \<noteq> None
      then [the (parseOpenedFile text)]
      else if (includes_text text ''<local-command-stderr>'' \<or> includes_text text ''<local-command-stdout>'')
              \<and> parseSlashCommandResult text \<noteq> None
      then [the (parseSlashCommandResult text)]
      else if includes_text text ''<post-tool-use-hook>'' \<and> parseDiagnostics text \<noteq> None
      then [the (parseDiagnostics text)]
      else if truthy_text (parseSlashCommandText text)
      then [TextBlock (the (parseSlashCommandText text)) (Some True)]
      else if tool_rejection text then []
      else [createTextBlock text])"

text \<open>\<open>typeof raw === 'object'\<close>.\<close>

definition typeof_object :: "jsval \<Rightarrow> bool" where
  "typeof_object v = (case v of JNull \<Rightarrow> True | JArr xs \<Rightarrow> True | JObj ps \<Rightarrow> True | _ \<Rightarrow> False)"

text \<open>
  \<open>parseBlock\<close>. \<open>String(...)\<close> and \<open>JSON.stringify(raw)\<close> are the calls that can throw
  here: nothing catches what they throw. The fallback of the \<open>switch\<close> prints
  \<open>JSON.stringify(raw)\<close>, which is a string for the objects and arrays that reach it.
\<close>

definition parseBlock :: "engine \<Rightarrow> jsval \<Rightarrow> js_error + ContentBlockType list" where
  "parseBlock g raw =
     (if \<not> truthy raw \<or> \<not> typeof_object raw
      then bind_js (to_String g (coalesce raw (JStr ''''))) (\<lambda>s. Inr [createTextBlock s])
      else
        bind_js (getprop raw ''type'') (\<lambda>type.
          if type = JStr ''text'' then
            bind_js (getprop raw ''text'') (\<lambda>text.
              if \<not> nullish text then bind_js (to_String g text) (\<lambda>s. Inr (parseTextBlock s))
              else bind_js (getprop raw ''value'') (\<lambda>v.
                bind_js (to_String g (coalesce v (JStr ''''))) (\<lambda>s. Inr (parseTextBlock s))))
          else if type = JStr ''thinking'' then
            bind_js (getprop raw ''thinking'') (\<lambda>thinking.
              bind_js (to_String g (coalesce thinking (JStr ''''))) (\<lambda>s. Inr [createThinkingBlock s]))
          else if type = JStr ''redacted_thinking'' then Inr []
          else if type = JStr ''image'' then
            bind_js (createImageBlock raw) (\<lambda>b. Inr [b])
          else if type = JStr ''document'' then
            bind_js (createDocumentBlock raw) (\<lambda>b. Inr [b])
          else if type = JStr ''tool_use'' then Inr [createToolUseBlock raw]
          else if type = JStr ''tool_result'' then
            bind_js (createToolResultBlock raw) (\<lambda>b. Inr [b])
          else
            bind_js (stringify g raw) (\<lambda>dump.
              Inr [createTextBlock (case dump of Some s \<Rightarrow> s | None \<Rightarrow> ''undefined'')])))"

text \<open>
  \<open>parseMessageContent\<close>: \<open>rawContent ?? []\<close> (\<open>None\<close> is a missing list), then the loop
  that appends the blocks of each fragment; a fragment that throws ends the loop.
\<close>

definition fragments :: "jsval list option \<Rightarrow> jsval list" where
  "fragments rawContent = (case rawContent of None \<Rightarrow> [] | Some raws \<Rightarrow> raws)"

fun parse_loop :: "engine \<Rightarrow> ContentBlockType list \<Rightarrow> jsval list \<Rightarrow> js_error + ContentBlockType list" where
  "parse_loop g blocks [] = Inr blocks"
| "parse_loop g blocks (raw # rest) =
     bind_js (parseBlock g raw) (\<lambda>parsed. parse_loop g (blocks @ parsed) rest)"

definition parseMessageContent :: "engine \<Rightarrow> jsval list option \<Rightarrow> js_error + ContentBlockType list" where
  "parseMessageContent g rawContent = parse_loop g [] (fragments rawContent)"


definition is_fragment_object :: "jsval \<Rightarrow> bool" where
  "is_fragment_object raw = (truthy raw \<and> typeof_object raw)"





definition fragment_text :: "engine \<Rightarrow> jsval \<Rightarrow> string option" where
  "fragment_text g raw =
     (if is_fragment_object raw \<and> readprop raw ''type'' = JStr ''text''
      then (case to_String g (coalesce (readprop raw ''text'') (coalesce (readprop raw ''value'') (JStr '''')))
            of Inr s \<Rightarrow> Some s | Inl error \<Rightarrow> None)
      else None)"

definition is_redacted :: "jsval \<Rightarrow> bool" where
  "is_redacted raw = (is_fragment_object raw \<and> readprop raw ''type'' = JStr ''redacted_thinking'')"

definition rule_before_diagnostics :: "string \<Rightarrow> bool" where
  "rule_before_diagnostics text =
     (lookup_interrupt text \<noteq> None
      \<or> (includes_text text ''<ide_selection>'' \<and> parseSelection text \<noteq> None)
      \<or> (includes_text text ''<ide_opened_file>'' \<and> parseOpenedFile text \<noteq> None)
      \<or> ((includes_text text ''<local-command-stderr>'' \<or> includes_text text ''<local-command-stdout>'')
          \<and> parseSlashCommandResult text \<noteq> None))"

definition earlier_rule :: "string \<Rightarrow> bool" where
  "earlier_rule text =
     (rule_before_diagnostics text
      \<or> (includes_text text ''<post-tool-use-hook>'' \<and> parseDiagnostics text \<noteq> None)
      \<or> truthy_text (parseSlashCommandText text))"

definition rules_after_diagnostics :: "string \<Rightarrow> ContentBlockType list" where
  "rules_after_diagnostics text =
     (if truthy_text (parseSlashCommandText text)
      then [TextBlock (the (parseSlashCommandText text)) (Some True)]
      else if tool_rejection text then []
      else [createTextBlock text])"

definition dropped_text :: "engine \<Rightarrow> jsval \<Rightarrow> bool" where
  "dropped_text g raw =
     (case fragment_text g raw of None \<Rightarrow> False | Some text \<Rightarrow> tool_rejection text \<and> \<not> earlier_rule text)"



text \<open>Fragments and texts used in the concrete evaluations below.\<close>

definition text_fragment :: "string \<Rightarrow> jsval" where
  "text_fragment text = JObj [(''type'', JStr ''text''), (''text'', JStr text)]"

definition selection_text :: string where
  "selection_text =
     ''<ide_selection>from src/a.ts: lines 3 to 7\<newline>foo\<newline>bar\<newline>   This may or may not be related</ide_selection>''"

definition rejection_with_command :: string where
  "rejection_with_command = TOOL_REJECTION_PREFIX @ ''<command-name>/x</command-name>''"


definition unknown_fragment :: jsval where
  "unknown_fragment = JObj [(''type'', JStr ''zzz''), (''x'', JNum 1 0)]"

definition toString_fragment :: jsval where
  "toString_fragment = JObj [(''type'', JStr ''text''), (''text'', JObj [(''toString'', JNum 1 0)])]"

section \<open>Selection state: theorems\<close>

lemma pending_has_selection_init: "pending_has_selection selectionState_init"
  by (simp add: pending_has_selection_def hasPendingAutoInclude_def selectionState_init_def)

lemma pending_has_selection_set:
  "pending_has_selection st \<Longrightarrow> pending_has_selection (set_selection selection opt st)"
  by (cases selection)
     (simp_all add: pending_has_selection_def hasPendingAutoInclude_def set_selection_def Let_def)

lemma pending_has_selection_consume:
  "pending_has_selection st \<Longrightarrow> pending_has_selection (snd (consume st))"
  by (cases "lastSelection st")
     (simp_all add: pending_has_selection_def hasPendingAutoInclude_def consume_def)

lemma pending_has_selection_clear: "pending_has_selection (clearAutoInclude st)"
  by (simp add: pending_has_selection_def hasPendingAutoInclude_def clearAutoInclude_def)

lemma pending_has_selection_step:
  "pending_has_selection st \<Longrightarrow> pending_has_selection (selection_step st c)"
  by (cases c)
     (simp_all add: pending_has_selection_set pending_has_selection_consume pending_has_selection_clear)

lemma pending_has_selection_foldl:
  "pending_has_selection st \<Longrightarrow> pending_has_selection (foldl selection_step st calls)"
  by (induction calls arbitrary: st) (simp_all add: pending_has_selection_step)

text \<open>
  Claim C10. Starting from the initial state (no selection, no pending flag), after any
  sequence of calls of \<open>set\<close>, \<open>consume\<close>, \<open>clearAutoInclude\<close>, \<open>getSnapshot\<close> and
  \<open>hasPendingAutoInclude\<close>: whenever \<open>hasPendingAutoInclude()\<close> returns true, the stored
  selection is non-null. Every single operation preserves the property as well.
\<close>

theorem C10_pending_implies_selection:
  "(hasPendingAutoInclude (selection_run calls) \<longrightarrow> lastSelection (selection_run calls) \<noteq> None)
   \<and> (pending_has_selection st \<longrightarrow> pending_has_selection (selection_step st c))"
proof -
  have "pending_has_selection (selection_run calls)"
    unfolding selection_run_def
    by (rule pending_has_selection_foldl [OF pending_has_selection_init])
  then have "hasPendingAutoInclude (selection_run calls) \<longrightarrow> lastSelection (selection_run calls) \<noteq> None"
    by (simp add: pending_has_selection_def split: if_splits)
  then show ?thesis
    by (simp add: pending_has_selection_step)
qed

theorem C10_pending_implies_selection_witness:
  "hasPendingAutoInclude (selection_run [CallSet (Some sel_example) (Some True), CallGetSnapshot])
   \<and> lastSelection (selection_run [CallSet (Some sel_example) (Some True), CallGetSnapshot]) \<noteq> None
   \<and> pending_has_selection (set_selection (Some sel_example) (Some True) selectionState_init)
   \<and> pending_has_selection (selection_step (set_selection (Some sel_example) (Some True) selectionState_init) CallConsume)"
  using C10_pending_implies_selection
    [of "[CallSet (Some sel_example) (Some True), CallGetSnapshot]"
        "set_selection (Some sel_example) (Some True) selectionState_init" CallConsume]
  by (simp add: selection_run_def set_selection_def selectionState_init_def hasPendingAutoInclude_def
        pending_has_selection_def Let_def)

text \<open>
  Claim C8, as stated, at a selection that itself carries the flag: the second \<open>consume\<close>
  returns the stored copy, flag included, so it is not "without the auto-include flag".
\<close>

theorem C8_second_consume_counterexample:
  "fst (consume (snd (consume (set_selection (Some sel_flagged) (Some True) selectionState_init))))
     = Some sel_flagged
   \<and> autoInclude sel_flagged = Some True"
  by (simp add: consume_def set_selection_def selectionState_init_def sel_flagged_def Let_def)

text \<open>
  Claim C8, amended. For every selection \<open>S\<close> and every prior state, after
  \<open>set(S, {autoInclude: true})\<close> the first \<open>consume()\<close> returns a copy of \<open>S\<close> with the
  auto-include flag set and leaves no pending auto-include behind; a second \<open>consume()\<close>
  with no \<open>set\<close> in between returns a copy of \<open>S\<close> exactly as it was set, with no flag
  added (its flag is the one \<open>S\<close> had, so none when \<open>S\<close> had none), and changes nothing.
\<close>

theorem C8_consume_fire_once:
  "fst (consume (set_selection (Some S) (Some True) st)) = Some (S\<lparr>autoInclude := Some True\<rparr>)
   \<and> hasPendingAutoInclude (set_selection (Some S) (Some True) st)
   \<and> hasPendingAutoInclude (snd (consume (set_selection (Some S) (Some True) st))) = False
   \<and> pendingSignature (snd (consume (set_selection (Some S) (Some True) st))) = None
   \<and> fst (consume (snd (consume (set_selection (Some S) (Some True) st)))) = Some S
   \<and> map_option autoInclude (fst (consume (snd (consume (set_selection (Some S) (Some True) st)))))
       = Some (autoInclude S)
   \<and> snd (consume (snd (consume (set_selection (Some S) (Some True) st))))
       = snd (consume (set_selection (Some S) (Some True) st))"
  by (simp add: consume_def set_selection_def hasPendingAutoInclude_def Let_def)

theorem C8_consume_fire_once_witness:
  "fst (consume (set_selection (Some sel_example) (Some True) selectionState_init))
     = Some (sel_example\<lparr>autoInclude := Some True\<rparr>)
   \<and> fst (consume (snd (consume (set_selection (Some sel_example) (Some True) selectionState_init))))
     = Some sel_example
   \<and> autoInclude sel_example = None"
  using C8_consume_fire_once [of sel_example selectionState_init]
  by (simp add: sel_example_def)

section \<open>Delivery bridge: lemmas about the loops\<close>

lemma handleAutoIncludeDelivered_total:
  "\<exists>ss'. handleAutoIncludeDelivered p ss = Inr ss'"
  by (simp add: handleAutoIncludeDelivered_def Let_def bind_js_def getprop_def getprop_opt_def nullish_def)

lemma try_send_throw:
  "throws (delivered st) w p \<Longrightarrow> try_send throws w p st = (Some SendError, False, st)"
  by (simp add: try_send_def webview_postMessage_def)

lemma try_send_ok:
  "\<not> throws (delivered st) w p \<Longrightarrow>
   \<exists>ss. try_send throws w p st = (None, True, st\<lparr>delivered := delivered st @ [(w, p)], selectionState := ss\<rparr>)"
proof -
  assume a: "\<not> throws (delivered st) w p"
  obtain ss where h: "handleAutoIncludeDelivered p (selectionState st) = Inr ss"
    using handleAutoIncludeDelivered_total by blast
  have "try_send throws w p st = (None, True, st\<lparr>delivered := delivered st @ [(w, p)], selectionState := ss\<rparr>)"
    using a h by (simp add: try_send_def webview_postMessage_def)
  then show ?thesis by blast
qed


lemma post_loop_skip:
  "w \<notin> set (readyWebviews st) \<or> not_addressed (webviewConfigs st w) \<Longrightarrow>
   post_loop throws p (w # ws) (st, R, d) = post_loop throws p ws (st, R, d)"
  by auto

lemma post_loop_throw:
  "w \<in> set (readyWebviews st) \<Longrightarrow> \<not> not_addressed (webviewConfigs st w) \<Longrightarrow>
   throws (delivered st) w p \<Longrightarrow>
   post_loop throws p (w # ws) (st, R, d) = post_loop throws p ws (st, R @ [w], d)"
  by (simp add: try_send_throw)

lemma post_loop_ok:
  "w \<in> set (readyWebviews st) \<Longrightarrow> \<not> not_addressed (webviewConfigs st w) \<Longrightarrow>
   \<not> throws (delivered st) w p \<Longrightarrow>
   \<exists>ss. post_loop throws p (w # ws) (st, R, d)
     = post_loop throws p ws (st\<lparr>delivered := delivered st @ [(w, p)], selectionState := ss\<rparr>, R, True)"
proof -
  assume a: "w \<in> set (readyWebviews st)" "\<not> not_addressed (webviewConfigs st w)"
    "\<not> throws (delivered st) w p"
  obtain ss where ts: "try_send throws w p st = (None, True, st\<lparr>delivered := delivered st @ [(w, p)], selectionState := ss\<rparr>)"
    using try_send_ok [where throws = throws and st = st and w = w and p = p] a(3) by blast
  have "post_loop throws p (w # ws) (st, R, d)
     = post_loop throws p ws (st\<lparr>delivered := delivered st @ [(w, p)], selectionState := ss\<rparr>, R, True)"
    using a(1,2) by (simp add: ts)
  then show ?thesis by blast
qed

lemma post_loop_frame:
  "post_loop throws p ws (st, R, d) = (st', R', d') \<Longrightarrow>
   webviews st' = webviews st \<and> readyWebviews st' = readyWebviews st
   \<and> webviewConfigs st' = webviewConfigs st \<and> pendingMessages st' = pendingMessages st"
proof (induction ws arbitrary: st R d)
  case Nil
  then show ?case by simp
next
  case (Cons w ws)
  consider (skip) "w \<notin> set (readyWebviews st) \<or> not_addressed (webviewConfigs st w)"
    | (throw) "w \<in> set (readyWebviews st)" "\<not> not_addressed (webviewConfigs st w)" "throws (delivered st) w p"
    | (ok) "w \<in> set (readyWebviews st)" "\<not> not_addressed (webviewConfigs st w)" "\<not> throws (delivered st) w p"
    by blast
  then show ?case
  proof cases
    case skip
    have "post_loop throws p ws (st, R, d) = (st', R', d')"
      using Cons.prems post_loop_skip [where throws = throws and st = st and w = w and p = p and ws = ws and R = R and d = d] skip by simp
    from Cons.IH [OF this] show ?thesis .
  next
    case throw
    have "post_loop throws p ws (st, R @ [w], d) = (st', R', d')"
      using Cons.prems post_loop_throw [where throws = throws and st = st and w = w and p = p and ws = ws and R = R and d = d] throw by simp
    from Cons.IH [OF this] show ?thesis .
  next
    case ok
    obtain ss where "post_loop throws p ws (st\<lparr>delivered := delivered st @ [(w, p)], selectionState := ss\<rparr>, R, True) = (st', R', d')"
      using Cons.prems post_loop_ok [where throws = throws and st = st and w = w and p = p and ws = ws and R = R and d = d] ok by auto
    from Cons.IH [OF this] show ?thesis by simp
  qed
qed

lemma eligible_frame:
  "readyWebviews st' = readyWebviews st \<Longrightarrow> webviewConfigs st' = webviewConfigs st \<Longrightarrow>
   eligible st' = eligible st"
  by (simp add: eligible_def fun_eq_iff)

lemma delivered_to_append:
  "delivered st' = delivered st @ [(w, p)] \<Longrightarrow>
   delivered_to v st' = delivered_to v st @ (if v = w then [p] else [])"
  by (simp add: delivered_to_def)

text \<open>One step of the loop of \<open>postMessage\<close>, in terms of eligibility.\<close>

lemma post_loop_cases:
  obtains (skip) "\<not> eligible st w"
      "post_loop throws p (w # ws) (st, R, d) = post_loop throws p ws (st, R, d)"
    | (throw) "eligible st w" "throws (delivered st) w p"
      "post_loop throws p (w # ws) (st, R, d) = post_loop throws p ws (st, R @ [w], d)"
    | (ok) st1 where "eligible st w" "\<not> throws (delivered st) w p"
      "post_loop throws p (w # ws) (st, R, d) = post_loop throws p ws (st1, R, True)"
      "delivered st1 = delivered st @ [(w, p)]" "webviews st1 = webviews st"
      "readyWebviews st1 = readyWebviews st" "webviewConfigs st1 = webviewConfigs st"
      "pendingMessages st1 = pendingMessages st"
proof -
  consider (a) "w \<notin> set (readyWebviews st) \<or> not_addressed (webviewConfigs st w)"
    | (b) "w \<in> set (readyWebviews st)" "\<not> not_addressed (webviewConfigs st w)" "throws (delivered st) w p"
    | (c) "w \<in> set (readyWebviews st)" "\<not> not_addressed (webviewConfigs st w)" "\<not> throws (delivered st) w p"
    by blast
  then show thesis
  proof cases
    case a
    then have "\<not> eligible st w" by (auto simp: eligible_def)
    then show thesis
      using skip post_loop_skip [where throws = throws and st = st and w = w and p = p and ws = ws and R = R and d = d] a
      by blast
  next
    case b
    then have "eligible st w" by (simp add: eligible_def)
    then show thesis
      using throw post_loop_throw [where throws = throws and st = st and w = w and p = p and ws = ws and R = R and d = d] b
      by blast
  next
    case c
    then have e: "eligible st w" by (simp add: eligible_def)
    obtain ss where h: "post_loop throws p (w # ws) (st, R, d)
       = post_loop throws p ws (st\<lparr>delivered := delivered st @ [(w, p)], selectionState := ss\<rparr>, R, True)"
      using post_loop_ok [where throws = throws and st = st and w = w and p = p and ws = ws and R = R and d = d] c
      by blast
    show thesis
      by (rule ok [OF e c(3) h]) simp_all
  qed
qed

lemma post_loop_toRemove:
  "post_loop throws p ws (st, R, d) = (st', R', d') \<Longrightarrow>
   set R \<subseteq> set R' \<and> set R' \<subseteq> set R \<union> {w \<in> set ws. eligible st w}"
proof (induction ws arbitrary: st R d)
  case Nil
  then show ?case by simp
next
  case (Cons w ws)
  show ?case
  proof (cases rule: post_loop_cases [of st w throws p ws R d])
    case skip
    then have "post_loop throws p ws (st, R, d) = (st', R', d')" using Cons.prems by simp
    from Cons.IH [OF this] show ?thesis by auto
  next
    case throw
    then have "post_loop throws p ws (st, R @ [w], d) = (st', R', d')" using Cons.prems by simp
    from Cons.IH [OF this] throw(1) show ?thesis by auto
  next
    case (ok st1)
    then have "post_loop throws p ws (st1, R, True) = (st', R', d')" using Cons.prems by simp
    from Cons.IH [OF this] eligible_frame [OF ok(6,7)] show ?thesis by auto
  qed
qed

lemma post_loop_delivered:
  "post_loop throws p ws (st, R, d) = (st', R', d') \<Longrightarrow> distinct ws \<Longrightarrow> set R \<inter> set ws = {} \<Longrightarrow>
   delivered_to v st' = delivered_to v st @ (if v \<in> set ws \<and> eligible st v \<and> v \<notin> set R' then [p] else [])"
proof (induction ws arbitrary: st R d)
  case Nil
  then show ?case by simp
next
  case (Cons w ws)
  have dw: "w \<notin> set ws" "distinct ws" "w \<notin> set R" "set R \<inter> set ws = {}"
    using Cons.prems(2,3) by auto
  show ?case
  proof (cases rule: post_loop_cases [of st w throws p ws R d])
    case skip
    then have h: "post_loop throws p ws (st, R, d) = (st', R', d')" using Cons.prems by simp
    from Cons.IH [OF h dw(2) dw(4)] skip(1) show ?thesis by auto
  next
    case throw
    then have h: "post_loop throws p ws (st, R @ [w], d) = (st', R', d')" using Cons.prems by simp
    have "w \<in> set R'" using post_loop_toRemove [OF h] by auto
    moreover have "set (R @ [w]) \<inter> set ws = {}" using dw by auto
    ultimately show ?thesis using Cons.IH [OF h dw(2)] dw(1) by auto
  next
    case (ok st1)
    then have h: "post_loop throws p ws (st1, R, True) = (st', R', d')" using Cons.prems by simp
    have el: "eligible st1 = eligible st" by (rule eligible_frame [OF ok(6,7)])
    have "w \<notin> set R'" using post_loop_toRemove [OF h] dw by auto
    then show ?thesis
      using Cons.IH [OF h dw(2) dw(4)] dw(1) ok(1) delivered_to_append [OF ok(4), of v] el by auto
  qed
qed

lemma post_loop_sent:
  "post_loop throws p ws (st, R, d) = (st', R', d') \<Longrightarrow> distinct ws \<Longrightarrow> set R \<inter> set ws = {} \<Longrightarrow>
   d' = (d \<or> (\<exists>v\<in>set ws. eligible st v \<and> v \<notin> set R'))"
proof (induction ws arbitrary: st R d)
  case Nil
  then show ?case by simp
next
  case (Cons w ws)
  have dw: "w \<notin> set ws" "distinct ws" "w \<notin> set R" "set R \<inter> set ws = {}"
    using Cons.prems(2,3) by auto
  show ?case
  proof (cases rule: post_loop_cases [of st w throws p ws R d])
    case skip
    then have h: "post_loop throws p ws (st, R, d) = (st', R', d')" using Cons.prems by simp
    from Cons.IH [OF h dw(2) dw(4)] skip(1) show ?thesis by auto
  next
    case throw
    then have h: "post_loop throws p ws (st, R @ [w], d) = (st', R', d')" using Cons.prems by simp
    have "w \<in> set R'" using post_loop_toRemove [OF h] by auto
    moreover have "set (R @ [w]) \<inter> set ws = {}" using dw by auto
    ultimately show ?thesis using Cons.IH [OF h dw(2)] by auto
  next
    case (ok st1)
    then have h: "post_loop throws p ws (st1, R, True) = (st', R', d')" using Cons.prems by simp
    have "w \<notin> set R'" using post_loop_toRemove [OF h] dw by auto
    then show ?thesis
      using Cons.IH [OF h dw(2) dw(4)] ok(1) by auto
  qed
qed

lemma post_loop_always_throws:
  "post_loop throws p ws (st, R, d) = (st', R', d') \<Longrightarrow> v \<in> set ws \<Longrightarrow> eligible st v \<Longrightarrow>
   \<forall>l. throws l v p \<Longrightarrow> v \<in> set R'"
proof (induction ws arbitrary: st R d)
  case Nil
  then show ?case by simp
next
  case (Cons w ws)
  show ?case
  proof (cases rule: post_loop_cases [of st w throws p ws R d])
    case skip
    then have h: "post_loop throws p ws (st, R, d) = (st', R', d')" using Cons.prems by simp
    have "v \<in> set ws" using skip(1) Cons.prems(2,3) by auto
    from Cons.IH [OF h this Cons.prems(3,4)] show ?thesis .
  next
    case throw
    then have h: "post_loop throws p ws (st, R @ [w], d) = (st', R', d')" using Cons.prems by simp
    show ?thesis
    proof (cases "v = w")
      case True
      then show ?thesis using post_loop_toRemove [OF h] by auto
    next
      case False
      then have "v \<in> set ws" using Cons.prems(2) by simp
      from Cons.IH [OF h this Cons.prems(3,4)] show ?thesis .
    qed
  next
    case (ok st1)
    then have h: "post_loop throws p ws (st1, R, True) = (st', R', d')" using Cons.prems by simp
    have el: "eligible st1 v" using eligible_frame [OF ok(6,7)] Cons.prems(3) by simp
    have "v \<noteq> w" using ok(2) Cons.prems(4) by auto
    then have "v \<in> set ws" using Cons.prems(2) by simp
    from Cons.IH [OF h this el Cons.prems(4)] show ?thesis .
  qed
qed

lemma post_loop_never_throws:
  "post_loop throws p ws (st, R, d) = (st', R', d') \<Longrightarrow> v \<notin> set R \<Longrightarrow>
   \<forall>l. \<not> throws l v p \<Longrightarrow> v \<notin> set R'"
proof (induction ws arbitrary: st R d)
  case Nil
  then show ?case by simp
next
  case (Cons w ws)
  show ?case
  proof (cases rule: post_loop_cases [of st w throws p ws R d])
    case skip
    then have h: "post_loop throws p ws (st, R, d) = (st', R', d')" using Cons.prems by simp
    from Cons.IH [OF h Cons.prems(2,3)] show ?thesis .
  next
    case throw
    then have h: "post_loop throws p ws (st, R @ [w], d) = (st', R', d')" using Cons.prems by simp
    have "v \<noteq> w" using throw(2) Cons.prems(3) by auto
    then have "v \<notin> set (R @ [w])" using Cons.prems(2) by simp
    from Cons.IH [OF h this Cons.prems(3)] show ?thesis .
  next
    case (ok st1)
    then have h: "post_loop throws p ws (st1, R, True) = (st', R', d')" using Cons.prems by simp
    from Cons.IH [OF h Cons.prems(2,3)] show ?thesis .
  qed
qed

lemma forget_simps:
  "webviews (forget_webview w st) = removeAll w (webviews st)"
  "readyWebviews (forget_webview w st) = removeAll w (readyWebviews st)"
  "webviewConfigs (forget_webview w st) = (webviewConfigs st)(w := None)"
  "pendingMessages (forget_webview w st) = pendingMessages st"
  "delivered (forget_webview w st) = delivered st"
  "selectionState (forget_webview w st) = selectionState st"
  by (simp_all add: forget_webview_def)

lemma fold_forget:
  "set (webviews (fold forget_webview R st)) = set (webviews st) - set R
   \<and> set (readyWebviews (fold forget_webview R st)) = set (readyWebviews st) - set R
   \<and> webviewConfigs (fold forget_webview R st) = (\<lambda>w. if w \<in> set R then None else webviewConfigs st w)
   \<and> pendingMessages (fold forget_webview R st) = pendingMessages st
   \<and> delivered (fold forget_webview R st) = delivered st
   \<and> selectionState (fold forget_webview R st) = selectionState st"
proof (induction R arbitrary: st)
  case Nil
  then show ?case by simp
next
  case (Cons w R)
  have eq: "fold forget_webview (w # R) st = fold forget_webview R (forget_webview w st)" by simp
  show ?case
    unfolding eq using Cons.IH [of "forget_webview w st"]
    by (auto simp: forget_simps fun_eq_iff)
qed

lemma enqueue_frame:
  "webviews (enqueuePendingMessage m st) = webviews st
   \<and> readyWebviews (enqueuePendingMessage m st) = readyWebviews st
   \<and> webviewConfigs (enqueuePendingMessage m st) = webviewConfigs st
   \<and> delivered (enqueuePendingMessage m st) = delivered st
   \<and> selectionState (enqueuePendingMessage m st) = selectionState st"
  by (simp add: enqueuePendingMessage_def Let_def)

lemma enqueue_pending_cong:
  "pendingMessages st1 = pendingMessages st \<Longrightarrow>
   pendingMessages (enqueuePendingMessage m st1) = pendingMessages (enqueuePendingMessage m st)"
  by (simp add: enqueuePendingMessage_def Let_def)

lemma delivered_to_cong: "delivered st' = delivered st \<Longrightarrow> delivered_to w st' = delivered_to w st"
  by (simp add: delivered_to_def)

lemma postMessage_char:
  assumes dist: "distinct (webviews st)"
  obtains R where
    "set R \<subseteq> {w \<in> set (webviews st). eligible st w}"
    "\<And>w. delivered_to w (postMessage throws m st) = delivered_to w st
         @ (if w \<in> set (webviews st) \<and> eligible st w \<and> w \<notin> set R then [from_extension m] else [])"
    "set (webviews (postMessage throws m st)) = set (webviews st) - set R"
    "set (readyWebviews (postMessage throws m st)) = set (readyWebviews st) - set R"
    "webviewConfigs (postMessage throws m st) = (\<lambda>w. if w \<in> set R then None else webviewConfigs st w)"
    "pendingMessages (postMessage throws m st) =
       (if \<exists>w\<in>set (webviews st). eligible st w \<and> w \<notin> set R then pendingMessages st
        else pendingMessages (enqueuePendingMessage m st))"
    "\<And>w. w \<in> set (webviews st) \<Longrightarrow> eligible st w \<Longrightarrow> \<forall>l. throws l w (from_extension m) \<Longrightarrow> w \<in> set R"
    "\<And>w. \<forall>l. \<not> throws l w (from_extension m) \<Longrightarrow> w \<notin> set R"
proof (cases "webviews st = []")
  case True
  then have pm: "postMessage throws m st = enqueuePendingMessage m st"
    by (simp add: postMessage_def)
  show thesis
    by (rule that [of "[]"]) (simp_all add: pm True enqueue_frame delivered_to_def)
next
  case False
  obtain st1 R d where pl: "post_loop throws (from_extension m) (webviews st) (st, [], False) = (st1, R, d)"
    by (cases "post_loop throws (from_extension m) (webviews st) (st, [], False)") auto
  define st2 where "st2 = (if \<not> d then enqueuePendingMessage m st1 else st1)"
  have pm: "postMessage throws m st = fold forget_webview R st2"
    using False pl by (simp add: postMessage_def st2_def)
  note fr = post_loop_frame [OF pl]
  have tr: "set R \<subseteq> {w \<in> set (webviews st). eligible st w}"
    using post_loop_toRemove [OF pl] by simp
  have dl: "\<And>w. delivered_to w st1 = delivered_to w st
       @ (if w \<in> set (webviews st) \<and> eligible st w \<and> w \<notin> set R then [from_extension m] else [])"
    using post_loop_delivered [OF pl dist] by simp
  have sn: "d = (\<exists>v\<in>set (webviews st). eligible st v \<and> v \<notin> set R)"
    using post_loop_sent [OF pl dist] by simp
  have d2: "delivered st2 = delivered st1" by (simp add: enqueue_frame st2_def)
  have w2: "webviews st2 = webviews st" "readyWebviews st2 = readyWebviews st"
      "webviewConfigs st2 = webviewConfigs st"
    using fr by (simp_all add: enqueue_frame st2_def)
  have p2: "pendingMessages st2 = (if d then pendingMessages st else pendingMessages (enqueuePendingMessage m st))"
    using fr enqueue_pending_cong [of st1 st m] by (simp add: st2_def)
  note ff = fold_forget [of R st2]
  show thesis
  proof (rule that [of R])
    show "set R \<subseteq> {w \<in> set (webviews st). eligible st w}" by (rule tr)
    show "delivered_to w (postMessage throws m st) = delivered_to w st
         @ (if w \<in> set (webviews st) \<and> eligible st w \<and> w \<notin> set R then [from_extension m] else [])" for w
      using dl [of w] delivered_to_cong [of "postMessage throws m st" st1 w] by (simp add: pm ff d2)
    show "set (webviews (postMessage throws m st)) = set (webviews st) - set R"
      by (simp add: pm ff w2)
    show "set (readyWebviews (postMessage throws m st)) = set (readyWebviews st) - set R"
      by (simp add: pm ff w2)
    show "webviewConfigs (postMessage throws m st) = (\<lambda>w. if w \<in> set R then None else webviewConfigs st w)"
      by (simp add: pm ff w2 fun_eq_iff)
    show "pendingMessages (postMessage throws m st) =
       (if \<exists>w\<in>set (webviews st). eligible st w \<and> w \<notin> set R then pendingMessages st
        else pendingMessages (enqueuePendingMessage m st))"
      by (simp add: pm ff p2 sn)
    show "w \<in> set R" if "w \<in> set (webviews st)" "eligible st w" "\<forall>l. throws l w (from_extension m)" for w
      using post_loop_always_throws [OF pl that] .
    show "w \<notin> set R" if "\<forall>l. \<not> throws l w (from_extension m)" for w
      using post_loop_never_throws [OF pl _ that] by simp
  qed
qed

lemma flush_payloads_char:
  "\<exists>k\<le>length ps.
     delivered (flush_payloads throws w ps st) = delivered st @ map (Pair w) (take k ps)
     \<and> pendingMessages (flush_payloads throws w ps st) = pendingMessages st
     \<and> (if k = length ps
         then webviews (flush_payloads throws w ps st) = webviews st
              \<and> readyWebviews (flush_payloads throws w ps st) = readyWebviews st
              \<and> webviewConfigs (flush_payloads throws w ps st) = webviewConfigs st
         else webviews (flush_payloads throws w ps st) = removeAll w (webviews st)
              \<and> readyWebviews (flush_payloads throws w ps st) = removeAll w (readyWebviews st)
              \<and> webviewConfigs (flush_payloads throws w ps st) = (webviewConfigs st)(w := None))"
proof (induction ps arbitrary: st)
  case Nil
  then show ?case by simp
next
  case (Cons p ps)
  show ?case
  proof (cases "throws (delivered st) w p")
    case True
    have "flush_payloads throws w (p # ps) st = forget_webview w st"
      using try_send_throw [where throws = throws and st = st and w = w and p = p] True by simp
    then show ?thesis
      by (intro exI [of _ 0]) (simp add: forget_simps)
  next
    case False
    obtain ss where ts: "try_send throws w p st
        = (None, True, st\<lparr>delivered := delivered st @ [(w, p)], selectionState := ss\<rparr>)"
      using try_send_ok [where throws = throws and st = st and w = w and p = p] False by blast
    define st1 where "st1 = st\<lparr>delivered := delivered st @ [(w, p)], selectionState := ss\<rparr>"
    have st1: "delivered st1 = delivered st @ [(w, p)]" "pendingMessages st1 = pendingMessages st"
      "webviews st1 = webviews st" "readyWebviews st1 = readyWebviews st"
      "webviewConfigs st1 = webviewConfigs st"
      by (simp_all add: st1_def)
    have eq: "flush_payloads throws w (p # ps) st = flush_payloads throws w ps st1"
      using ts by (simp add: st1_def)
    obtain k where k: "k \<le> length ps"
      "delivered (flush_payloads throws w ps st1) = delivered st1 @ map (Pair w) (take k ps)"
      "pendingMessages (flush_payloads throws w ps st1) = pendingMessages st1"
      "if k = length ps
         then webviews (flush_payloads throws w ps st1) = webviews st1
              \<and> readyWebviews (flush_payloads throws w ps st1) = readyWebviews st1
              \<and> webviewConfigs (flush_payloads throws w ps st1) = webviewConfigs st1
         else webviews (flush_payloads throws w ps st1) = removeAll w (webviews st1)
              \<and> readyWebviews (flush_payloads throws w ps st1) = removeAll w (readyWebviews st1)
              \<and> webviewConfigs (flush_payloads throws w ps st1) = (webviewConfigs st1)(w := None)"
      using Cons.IH [of st1] by blast
    show ?thesis
      unfolding eq
      by (intro exI [of _ "Suc k"]) (use k st1 in \<open>simp split: if_splits\<close>)
  qed
qed

lemma flush_payloads_never_throws:
  "\<forall>l q. \<not> throws l w q \<Longrightarrow>
     delivered (flush_payloads throws w ps st) = delivered st @ map (Pair w) ps
     \<and> webviews (flush_payloads throws w ps st) = webviews st
     \<and> readyWebviews (flush_payloads throws w ps st) = readyWebviews st
     \<and> webviewConfigs (flush_payloads throws w ps st) = webviewConfigs st"
proof (induction ps arbitrary: st)
  case Nil
  then show ?case by simp
next
  case (Cons p ps)
  have nt: "\<not> throws (delivered st) w p" using Cons.prems by blast
  obtain ss where ts: "try_send throws w p st
      = (None, True, st\<lparr>delivered := delivered st @ [(w, p)], selectionState := ss\<rparr>)"
    using try_send_ok [where throws = throws and st = st and w = w and p = p] nt by blast
  have eq: "flush_payloads throws w (p # ps) st
      = flush_payloads throws w ps (st\<lparr>delivered := delivered st @ [(w, p)], selectionState := ss\<rparr>)"
    using ts by simp
  show ?case
    unfolding eq using Cons.IH [OF Cons.prems, of "st\<lparr>delivered := delivered st @ [(w, p)], selectionState := ss\<rparr>"]
    by simp
qed

lemma delivered_to_other:
  "delivered st' = delivered st @ map (Pair w) ps \<Longrightarrow> v \<noteq> w \<Longrightarrow> delivered_to v st' = delivered_to v st"
  by (simp add: delivered_to_def filter_map comp_def)

lemma delivered_to_self:
  "delivered st' = delivered st @ map (Pair w) ps \<Longrightarrow> delivered_to w st' = delivered_to w st @ ps"
  by (simp add: delivered_to_def filter_map comp_def)

lemma flush_target_pending:
  "pendingMessages (flush_target throws w st) = pendingMessages st"
  using flush_payloads_char [of "pendingMessages st" throws w st]
  by (auto simp: flush_target_def)

lemma flush_target_other:
  "v \<noteq> w \<Longrightarrow> untouched st (flush_target throws w st) v"
proof (cases "not_addressed (webviewConfigs st w)")
  case True
  then show ?thesis by (simp add: flush_target_def untouched_def tracked_alike_def)
next
  case False
  assume vw: "v \<noteq> w"
  let ?st' = "flush_payloads throws w (pendingMessages st) st"
  obtain k where k: "delivered ?st' = delivered st @ map (Pair w) (take k (pendingMessages st))"
    "if k = length (pendingMessages st)
         then webviews ?st' = webviews st \<and> readyWebviews ?st' = readyWebviews st
              \<and> webviewConfigs ?st' = webviewConfigs st
         else webviews ?st' = removeAll w (webviews st)
              \<and> readyWebviews ?st' = removeAll w (readyWebviews st)
              \<and> webviewConfigs ?st' = (webviewConfigs st)(w := None)"
    using flush_payloads_char [of "pendingMessages st" throws w st] by blast
  have "delivered_to v ?st' = delivered_to v st"
    by (rule delivered_to_other [OF k(1) vw])
  moreover have "tracked_alike st ?st' v"
    using k(2) vw by (auto simp: tracked_alike_def split: if_splits)
  ultimately show ?thesis
    using False by (simp add: flush_target_def untouched_def)
qed

lemma flush_target_skip:
  "not_addressed (webviewConfigs st w) \<Longrightarrow> flush_target throws w st = st"
  by (simp add: flush_target_def)

lemma flush_target_self:
  assumes "\<not> not_addressed (webviewConfigs st w)"
  shows "replayed st (flush_target throws w st) (pendingMessages st) w"
proof -
  let ?st' = "flush_payloads throws w (pendingMessages st) st"
  obtain k where k: "k \<le> length (pendingMessages st)"
    "delivered ?st' = delivered st @ map (Pair w) (take k (pendingMessages st))"
    "if k = length (pendingMessages st)
         then webviews ?st' = webviews st \<and> readyWebviews ?st' = readyWebviews st
              \<and> webviewConfigs ?st' = webviewConfigs st
         else webviews ?st' = removeAll w (webviews st)
              \<and> readyWebviews ?st' = removeAll w (readyWebviews st)
              \<and> webviewConfigs ?st' = (webviewConfigs st)(w := None)"
    using flush_payloads_char [of "pendingMessages st" throws w st] by blast
  have d: "delivered_to w ?st' = delivered_to w st @ take k (pendingMessages st)"
    by (rule delivered_to_self [OF k(2)])
  have t: "if k = length (pendingMessages st) then tracked_alike st ?st' w else forgotten ?st' w"
    using k(3) by (auto simp: tracked_alike_def forgotten_def split: if_splits)
  have "replayed st ?st' (pendingMessages st) w"
    unfolding replayed_def using k(1) d t by (intro bexI [of _ k]) simp_all
  then show ?thesis using assms by (simp add: flush_target_def)
qed

lemma flush_target_never_throws:
  assumes "\<not> not_addressed (webviewConfigs st w)" "\<forall>l q. \<not> throws l w q"
  shows "delivered_to w (flush_target throws w st) = delivered_to w st @ pendingMessages st
     \<and> tracked_alike st (flush_target throws w st) w"
  using flush_payloads_never_throws [where throws = throws and w = w and ps = "pendingMessages st" and st = st] assms
    delivered_to_self [of "flush_payloads throws w (pendingMessages st) st" st w "pendingMessages st"]
  by (simp add: flush_target_def tracked_alike_def)

lemma untouched_refl: "untouched st st v"
  by (simp add: untouched_def tracked_alike_def)

lemma untouched_trans: "untouched st st1 v \<Longrightarrow> untouched st1 st2 v \<Longrightarrow> untouched st st2 v"
  by (simp add: untouched_def tracked_alike_def)

lemma untouched_replayed:
  assumes "untouched st st1 v" "replayed st1 st2 buf v"
  shows "replayed st st2 buf v"
proof -
  obtain k where k: "k \<in> {0..length buf}" "delivered_to v st2 = delivered_to v st1 @ take k buf"
    "if k = length buf then tracked_alike st1 st2 v else forgotten st2 v"
    using assms(2) unfolding replayed_def by blast
  have "delivered_to v st2 = delivered_to v st @ take k buf"
    using k(2) assms(1) by (simp add: untouched_def)
  moreover have "if k = length buf then tracked_alike st st2 v else forgotten st2 v"
    using k(3) assms(1) by (simp add: untouched_def tracked_alike_def split: if_splits)
  ultimately show ?thesis unfolding replayed_def using k(1) by blast
qed

lemma replayed_untouched:
  assumes "replayed st st1 buf v" "untouched st1 st2 v"
  shows "replayed st st2 buf v"
proof -
  obtain k where k: "k \<in> {0..length buf}" "delivered_to v st1 = delivered_to v st @ take k buf"
    "if k = length buf then tracked_alike st st1 v else forgotten st1 v"
    using assms(1) unfolding replayed_def by blast
  have "delivered_to v st2 = delivered_to v st @ take k buf"
    using k(2) assms(2) by (simp add: untouched_def)
  moreover have "if k = length buf then tracked_alike st st2 v else forgotten st2 v"
    using k(3) assms(2) by (simp add: untouched_def tracked_alike_def forgotten_def split: if_splits)
  ultimately show ?thesis unfolding replayed_def using k(1) by blast
qed

lemma untouched_config: "untouched st st1 v \<Longrightarrow> webviewConfigs st1 v = webviewConfigs st v"
  by (simp add: untouched_def tracked_alike_def)

lemma flush_fold_char:
  "distinct ws \<Longrightarrow>
   pendingMessages (fold (flush_target throws) ws st) = pendingMessages st
   \<and> (\<forall>v. if v \<in> set ws \<and> \<not> not_addressed (webviewConfigs st v)
           then replayed st (fold (flush_target throws) ws st) (pendingMessages st) v
           else untouched st (fold (flush_target throws) ws st) v)"
proof (induction ws arbitrary: st)
  case Nil
  then show ?case by (simp add: untouched_refl)
next
  case (Cons w ws)
  define st1 where "st1 = flush_target throws w st"
  define st2 where "st2 = fold (flush_target throws) ws st1"
  have eq: "fold (flush_target throws) (w # ws) st = st2" by (simp add: st1_def st2_def)
  have dw: "w \<notin> set ws" "distinct ws" using Cons.prems by auto
  have p1: "pendingMessages st1 = pendingMessages st" by (simp add: st1_def flush_target_pending)
  have ih: "pendingMessages st2 = pendingMessages st1"
    "\<And>v. if v \<in> set ws \<and> \<not> not_addressed (webviewConfigs st1 v)
           then replayed st1 st2 (pendingMessages st1) v else untouched st1 st2 v"
    using Cons.IH [OF dw(2), of st1] by (simp_all add: st2_def)
  have main: "if v \<in> set (w # ws) \<and> \<not> not_addressed (webviewConfigs st v)
           then replayed st st2 (pendingMessages st) v else untouched st st2 v" for v
  proof (cases "v = w")
    case True
    have u: "untouched st1 st2 w" using ih(2) [of w] dw(1) by simp
    show ?thesis
    proof (cases "not_addressed (webviewConfigs st w)")
      case na: True
      then have "st1 = st" by (simp add: st1_def flush_target_skip)
      then show ?thesis using u na True by simp
    next
      case a: False
      have "replayed st st1 (pendingMessages st) w"
        unfolding st1_def by (rule flush_target_self [OF a])
      then have "replayed st st2 (pendingMessages st) w" using u by (rule replayed_untouched)
      then show ?thesis using a True by simp
    qed
  next
    case False
    have u: "untouched st st1 v" unfolding st1_def by (rule flush_target_other [OF False])
    have c: "webviewConfigs st1 v = webviewConfigs st v" by (rule untouched_config [OF u])
    show ?thesis
    proof (cases "v \<in> set ws \<and> \<not> not_addressed (webviewConfigs st v)")
      case t: True
      then have "replayed st1 st2 (pendingMessages st) v" using ih(2) [of v] c p1 by simp
      then have "replayed st st2 (pendingMessages st) v" by (rule untouched_replayed [OF u])
      then show ?thesis using t by simp
    next
      case f: False
      then have "untouched st1 st2 v" using ih(2) [of v] c by auto
      then have "untouched st st2 v" by (rule untouched_trans [OF u])
      then show ?thesis using f False by auto
    qed
  qed
  show ?case unfolding eq using ih(1) p1 main by simp
qed

lemma flush_fold_never_throws:
  "distinct ws \<Longrightarrow> w \<in> set ws \<Longrightarrow> \<not> not_addressed (webviewConfigs st w) \<Longrightarrow>
   \<forall>l q. \<not> throws l w q \<Longrightarrow>
   delivered_to w (fold (flush_target throws) ws st) = delivered_to w st @ pendingMessages st
   \<and> tracked_alike st (fold (flush_target throws) ws st) w"
proof (induction ws arbitrary: st)
  case Nil
  then show ?case by simp
next
  case (Cons a ws)
  define st1 where "st1 = flush_target throws a st"
  define st2 where "st2 = fold (flush_target throws) ws st1"
  have eq: "fold (flush_target throws) (a # ws) st = st2" by (simp add: st1_def st2_def)
  have dw: "a \<notin> set ws" "distinct ws" using Cons.prems(1) by auto
  show ?case
  proof (cases "a = w")
    case True
    have s1: "delivered_to w st1 = delivered_to w st @ pendingMessages st \<and> tracked_alike st st1 w"
      unfolding st1_def True
      using flush_target_never_throws [where throws = throws and w = w and st = st] Cons.prems(3,4)
      by blast
    have "untouched st1 st2 w"
      using flush_fold_char [OF dw(2), of throws st1] dw(1) True by (simp add: st2_def)
    then show ?thesis
      unfolding eq using s1 by (simp add: untouched_def tracked_alike_def)
  next
    case False
    then have ne: "w \<noteq> a" by simp
    have u: "untouched st st1 w" unfolding st1_def by (rule flush_target_other [OF ne])
    have c: "\<not> not_addressed (webviewConfigs st1 w)"
      using untouched_config [OF u] Cons.prems(3) by simp
    have p1: "pendingMessages st1 = pendingMessages st" by (simp add: st1_def flush_target_pending)
    have wi: "w \<in> set ws" using Cons.prems(2) False by simp
    have "delivered_to w st2 = delivered_to w st1 @ pendingMessages st1 \<and> tracked_alike st1 st2 w"
      unfolding st2_def by (rule Cons.IH [OF dw(2) wi c Cons.prems(4)])
    then show ?thesis
      unfolding eq using u p1 by (simp add: untouched_def tracked_alike_def)
  qed
qed

lemma pending_reset_simps:
  "replayed st (st'\<lparr>pendingMessages := x\<rparr>) buf v = replayed st st' buf v"
  "untouched st (st'\<lparr>pendingMessages := x\<rparr>) v = untouched st st' v"
  "tracked_alike st (st'\<lparr>pendingMessages := x\<rparr>) v = tracked_alike st st' v"
  "delivered_to v (st'\<lparr>pendingMessages := x\<rparr>) = delivered_to v st'"
  by (simp_all add: replayed_def untouched_def tracked_alike_def forgotten_def delivered_to_def)

lemma flushPendingMessages_pending:
  "pendingMessages (flushPendingMessages throws st) = pendingMessages st
   \<or> pendingMessages (flushPendingMessages throws st) = []"
  by (simp add: flushPendingMessages_def)

lemma flushPendingMessages_char:
  assumes "distinct (readyWebviews st)" "readyWebviews st \<noteq> []" "pendingMessages st \<noteq> []"
  shows "pendingMessages (flushPendingMessages throws st) = []"
    "eligible st v \<Longrightarrow> replayed st (flushPendingMessages throws st) (pendingMessages st) v"
    "\<not> eligible st v \<Longrightarrow> untouched st (flushPendingMessages throws st) v"
    "eligible st v \<Longrightarrow> \<forall>l q. \<not> throws l v q \<Longrightarrow>
       delivered_to v (flushPendingMessages throws st) = delivered_to v st @ pendingMessages st
       \<and> tracked_alike st (flushPendingMessages throws st) v"
proof -
  have eq: "flushPendingMessages throws st
      = (fold (flush_target throws) (readyWebviews st) st)\<lparr>pendingMessages := []\<rparr>"
    using assms(2,3) by (simp add: flushPendingMessages_def)
  note fc = flush_fold_char [OF assms(1), of throws st]
  show "pendingMessages (flushPendingMessages throws st) = []" by (simp add: eq)
  show "replayed st (flushPendingMessages throws st) (pendingMessages st) v" if "eligible st v"
    using fc that by (simp add: eq pending_reset_simps eligible_def)
  show "untouched st (flushPendingMessages throws st) v" if "\<not> eligible st v"
    using fc that by (auto simp: eq pending_reset_simps eligible_def)
  show "delivered_to v (flushPendingMessages throws st) = delivered_to v st @ pendingMessages st
       \<and> tracked_alike st (flushPendingMessages throws st) v"
    if "eligible st v" "\<forall>l q. \<not> throws l v q"
    using flush_fold_never_throws [where throws = throws and ws = "readyWebviews st" and w = v and st = st]
      assms(1) that
    by (simp add: eq pending_reset_simps eligible_def)
qed

lemma add_ready_simps:
  "w \<notin> set (readyWebviews st) \<Longrightarrow> readyWebviews (add_ready w st) = readyWebviews st @ [w]"
  "webviews (add_ready w st) = webviews st"
  "webviewConfigs (add_ready w st) = webviewConfigs st"
  "pendingMessages (add_ready w st) = pendingMessages st"
  "delivered (add_ready w st) = delivered st"
  "delivered_to v (add_ready w st) = delivered_to v st"
  by (simp_all add: add_ready_def Set_add_def delivered_to_def)

lemma enqueue_pending_nonempty: "pendingMessages (enqueuePendingMessage m st) \<noteq> []"
proof (cases "pendingMessages st")
  case Nil
  then show ?thesis by (simp add: enqueuePendingMessage_def Let_def MAX_PENDING_MESSAGES_def)
next
  case (Cons b bs)
  then show ?thesis by (simp add: enqueuePendingMessage_def Let_def)
qed

lemma enqueue_pending_last: "last (pendingMessages (enqueuePendingMessage m st)) = from_extension m"
proof (cases "length (pendingMessages st @ [from_extension m]) > MAX_PENDING_MESSAGES")
  case True
  then have "pendingMessages st \<noteq> []" by (auto simp: MAX_PENDING_MESSAGES_def)
  then have "tl (pendingMessages st @ [from_extension m]) = tl (pendingMessages st) @ [from_extension m]"
    by simp
  then show ?thesis using True by (simp add: enqueuePendingMessage_def Let_def)
next
  case False
  then show ?thesis by (simp add: enqueuePendingMessage_def Let_def)
qed

lemma enqueue_pending_length:
  "length (pendingMessages st) \<le> MAX_PENDING_MESSAGES \<Longrightarrow>
   length (pendingMessages (enqueuePendingMessage m st)) \<le> MAX_PENDING_MESSAGES"
  by (simp add: enqueuePendingMessage_def Let_def)

lemma postMessage_pending_cases:
  "pendingMessages (postMessage throws m st) = pendingMessages st
   \<or> pendingMessages (postMessage throws m st) = pendingMessages (enqueuePendingMessage m st)"
proof (cases "webviews st = []")
  case True
  then show ?thesis by (simp add: postMessage_def)
next
  case False
  obtain st1 R d where pl: "post_loop throws (from_extension m) (webviews st) (st, [], False) = (st1, R, d)"
    by (cases "post_loop throws (from_extension m) (webviews st) (st, [], False)") auto
  define st2 where "st2 = (if \<not> d then enqueuePendingMessage m st1 else st1)"
  have pm: "postMessage throws m st = fold forget_webview R st2"
    using False pl by (simp add: postMessage_def st2_def)
  have "pendingMessages st1 = pendingMessages st" using post_loop_frame [OF pl] by simp
  then have "pendingMessages st2 = pendingMessages st
      \<or> pendingMessages st2 = pendingMessages (enqueuePendingMessage m st)"
    using enqueue_pending_cong [of st1 st m] by (simp add: st2_def)
  then show ?thesis by (simp add: pm fold_forget)
qed

lemma post_loop_none_eligible:
  "\<forall>w\<in>set ws. \<not> eligible st w \<Longrightarrow> post_loop throws p ws (st, R, d) = (st, R, d)"
  by (induction ws) (auto simp: eligible_def)

lemma postMessage_none_eligible:
  "\<forall>w\<in>set (webviews st). \<not> eligible st w \<Longrightarrow> postMessage throws m st = enqueuePendingMessage m st"
  by (simp add: postMessage_def post_loop_none_eligible)

lemma eligible_enqueue: "eligible (enqueuePendingMessage m st) = eligible st"
  by (simp add: eligible_def enqueue_frame fun_eq_iff)

lemma enqueue_drop:
  assumes "length (pendingMessages st) \<le> 50"
  shows "pendingMessages (enqueuePendingMessage m st)
      = drop (length (pendingMessages st) + 1 - 50) (pendingMessages st @ [from_extension m])"
proof (cases "length (pendingMessages st) = 50")
  case True
  then have "pendingMessages st \<noteq> []" by auto
  then obtain b bs where b: "pendingMessages st = b # bs" by (cases "pendingMessages st") auto
  show ?thesis using True by (simp add: enqueuePendingMessage_def Let_def MAX_PENDING_MESSAGES_def b)
next
  case False
  then have "length (pendingMessages st) < 50" using assms by simp
  then show ?thesis by (simp add: enqueuePendingMessage_def Let_def MAX_PENDING_MESSAGES_def)
qed

lemma fold_post_none_eligible:
  "\<forall>w\<in>set (webviews st). \<not> eligible st w \<Longrightarrow> length (pendingMessages st) \<le> 50 \<Longrightarrow>
   pendingMessages (fold (postMessage throws) ms st)
     = drop (length (pendingMessages st) + length ms - 50) (pendingMessages st @ map from_extension ms)"
proof (induction ms arbitrary: st)
  case Nil
  then show ?case by simp
next
  case (Cons m ms)
  define st1 where "st1 = enqueuePendingMessage m st"
  have eq: "fold (postMessage throws) (m # ms) st = fold (postMessage throws) ms st1"
    using postMessage_none_eligible [OF Cons.prems(1)] by (simp add: st1_def)
  have e1: "\<forall>w\<in>set (webviews st1). \<not> eligible st1 w"
    using Cons.prems(1) by (simp add: st1_def eligible_enqueue enqueue_frame)
  have l1: "length (pendingMessages st1) \<le> 50"
    using enqueue_pending_length [of st m] Cons.prems(2) by (simp add: st1_def MAX_PENDING_MESSAGES_def)
  have p1: "pendingMessages st1
      = drop (length (pendingMessages st) + 1 - 50) (pendingMessages st @ [from_extension m])"
    unfolding st1_def by (rule enqueue_drop [OF Cons.prems(2)])
  have "pendingMessages (fold (postMessage throws) ms st1)
     = drop (length (pendingMessages st1) + length ms - 50) (pendingMessages st1 @ map from_extension ms)"
    by (rule Cons.IH [OF e1 l1])
  also have "\<dots> = drop (length (pendingMessages st) + length (m # ms) - 50)
       (pendingMessages st @ map from_extension (m # ms))"
  proof (cases "length (pendingMessages st) = 50")
    case True
    then show ?thesis using p1 by (simp add: drop_Suc)
  next
    case False
    then have "length (pendingMessages st) < 50" using Cons.prems(2) by simp
    then show ?thesis using p1 by simp
  qed
  finally show ?case unfolding eq .
qed

lemma service_step_pending_bound:
  "length (pendingMessages st) \<le> MAX_PENDING_MESSAGES \<Longrightarrow>
   length (pendingMessages (service_step throws st ev)) \<le> MAX_PENDING_MESSAGES"
proof (cases ev)
  case (Register w c)
  assume "length (pendingMessages st) \<le> MAX_PENDING_MESSAGES"
  then show ?thesis using Register by (simp add: registerWebview_def)
next
  case (Dispose w)
  assume "length (pendingMessages st) \<le> MAX_PENDING_MESSAGES"
  then show ?thesis using Dispose by (simp add: forget_simps)
next
  case (Inbound w)
  assume a: "length (pendingMessages st) \<le> MAX_PENDING_MESSAGES"
  have "pendingMessages (markWebviewReady throws w st) = pendingMessages st
      \<or> pendingMessages (markWebviewReady throws w st) = []"
    using flushPendingMessages_pending [of throws "add_ready w st"]
    by (auto simp: markWebviewReady_def add_ready_simps)
  then show ?thesis using a Inbound by auto
next
  case (Post m)
  assume a: "length (pendingMessages st) \<le> MAX_PENDING_MESSAGES"
  show ?thesis
    using postMessage_pending_cases [of throws m st] enqueue_pending_length [OF a, of m] a Post
    by auto
qed

lemma service_foldl_pending_bound:
  "length (pendingMessages st) \<le> MAX_PENDING_MESSAGES \<Longrightarrow>
   length (pendingMessages (foldl (service_step throws) st evs)) \<le> MAX_PENDING_MESSAGES"
  by (induction evs arbitrary: st) (simp_all add: service_step_pending_bound)

lemma distinct_add_ready:
  "distinct (readyWebviews st) \<Longrightarrow> distinct (readyWebviews (add_ready w st))"
  by (simp add: add_ready_def Set_add_def)

lemma flush_target_distinct:
  "distinct (webviews st) \<Longrightarrow> distinct (webviews (flush_target throws w st))"
  using flush_payloads_char [of "pendingMessages st" throws w st]
  by (auto simp: flush_target_def distinct_removeAll split: if_splits)

lemma flush_fold_distinct:
  "distinct (webviews st) \<Longrightarrow> distinct (webviews (fold (flush_target throws) ws st))"
  by (induction ws arbitrary: st) (simp_all add: flush_target_distinct)

lemma flushPendingMessages_distinct:
  "distinct (webviews st) \<Longrightarrow> distinct (webviews (flushPendingMessages throws st))"
  by (simp add: flushPendingMessages_def flush_fold_distinct)

lemmas bridge_eval = add_ready_def service_run_def service_init_def registerWebview_def
  Set_add_def markWebviewReady_def flushPendingMessages_def flush_target_def postMessage_def
  enqueuePendingMessage_def MAX_PENDING_MESSAGES_def forget_webview_def try_send_def
  webview_postMessage_def handleAutoIncludeDelivered_def getprop_opt_def getprop_def nullish_def
  bind_js_def not_addressed_def sidebar_chat_def from_extension_def never_throws_def zero_throws_def
  eligible_def forgotten_def tracked_alike_def untouched_def delivered_to_def Let_def

section \<open>Delivery bridge: theorems\<close>

text \<open>
  Claim C5. In \<open>postMessage\<close>, on a service whose \<open>webviews\<close> set has no duplicates, every
  registered, ready and addressed webview is sent the payload: it either accepts it and
  stays tracked as it was, or its send throws, nothing reaches it and it is removed from
  \<open>webviews\<close>, \<open>readyWebviews\<close> and \<open>webviewConfigs\<close>. A webview whose send always throws
  is removed; one whose send never throws receives the payload whatever the others do.
  Every other webview is untouched. The message is left out of the pending buffer
  exactly when at least one such webview accepted it; when all of them threw (or there
  was none) it is enqueued. The call returns the new state in every case: a throw of the
  send does not leave \<open>postMessage\<close>.
\<close>

theorem C5_post_delivery_failure:
  assumes "distinct (webviews st)"
  shows "(\<forall>w. w \<in> set (webviews st) \<and> eligible st w \<longrightarrow>
            (delivered_to w (postMessage throws m st) = delivered_to w st @ [from_extension m]
               \<and> tracked_alike st (postMessage throws m st) w)
            \<or> (delivered_to w (postMessage throws m st) = delivered_to w st
               \<and> forgotten (postMessage throws m st) w))
       \<and> (\<forall>w. w \<in> set (webviews st) \<and> eligible st w \<and> (\<forall>l. throws l w (from_extension m)) \<longrightarrow>
            delivered_to w (postMessage throws m st) = delivered_to w st
            \<and> forgotten (postMessage throws m st) w)
       \<and> (\<forall>w. w \<in> set (webviews st) \<and> eligible st w \<and> (\<forall>l. \<not> throws l w (from_extension m)) \<longrightarrow>
            delivered_to w (postMessage throws m st) = delivered_to w st @ [from_extension m]
            \<and> tracked_alike st (postMessage throws m st) w)
       \<and> (\<forall>w. \<not> (w \<in> set (webviews st) \<and> eligible st w) \<longrightarrow> untouched st (postMessage throws m st) w)
       \<and> pendingMessages (postMessage throws m st) =
            (if \<exists>w\<in>set (webviews st). eligible st w \<and> w \<in> set (webviews (postMessage throws m st))
             then pendingMessages st else pendingMessages (enqueuePendingMessage m st))"
proof -
  obtain R where R:
    "set R \<subseteq> {w \<in> set (webviews st). eligible st w}"
    "\<And>w. delivered_to w (postMessage throws m st) = delivered_to w st
         @ (if w \<in> set (webviews st) \<and> eligible st w \<and> w \<notin> set R then [from_extension m] else [])"
    "set (webviews (postMessage throws m st)) = set (webviews st) - set R"
    "set (readyWebviews (postMessage throws m st)) = set (readyWebviews st) - set R"
    "webviewConfigs (postMessage throws m st) = (\<lambda>w. if w \<in> set R then None else webviewConfigs st w)"
    "pendingMessages (postMessage throws m st) =
       (if \<exists>w\<in>set (webviews st). eligible st w \<and> w \<notin> set R then pendingMessages st
        else pendingMessages (enqueuePendingMessage m st))"
    "\<And>w. w \<in> set (webviews st) \<Longrightarrow> eligible st w \<Longrightarrow> \<forall>l. throws l w (from_extension m) \<Longrightarrow> w \<in> set R"
    "\<And>w. \<forall>l. \<not> throws l w (from_extension m) \<Longrightarrow> w \<notin> set R"
    by (rule postMessage_char [OF assms, of throws m]) blast
  have acc: "delivered_to w (postMessage throws m st) = delivered_to w st @ [from_extension m]
      \<and> tracked_alike st (postMessage throws m st) w"
    if "w \<in> set (webviews st)" "eligible st w" "w \<notin> set R" for w
    using that R(2) [of w] by (simp add: tracked_alike_def R(3,4,5))
  have rej: "delivered_to w (postMessage throws m st) = delivered_to w st
      \<and> forgotten (postMessage throws m st) w"
    if "w \<in> set R" for w
    using that R(2) [of w] by (simp add: forgotten_def R(3,4,5))
  have unt: "untouched st (postMessage throws m st) w"
    if "\<not> (w \<in> set (webviews st) \<and> eligible st w)" for w
  proof -
    have "w \<notin> set R" using that R(1) by auto
    then show ?thesis using that R(2) [of w] by (auto simp: untouched_def tracked_alike_def R(3,4,5))
  qed
  have c1: "\<forall>w. w \<in> set (webviews st) \<and> eligible st w \<longrightarrow>
            (delivered_to w (postMessage throws m st) = delivered_to w st @ [from_extension m]
               \<and> tracked_alike st (postMessage throws m st) w)
            \<or> (delivered_to w (postMessage throws m st) = delivered_to w st
               \<and> forgotten (postMessage throws m st) w)"
    using acc rej by blast
  have c2: "\<forall>w. w \<in> set (webviews st) \<and> eligible st w \<and> (\<forall>l. throws l w (from_extension m)) \<longrightarrow>
            delivered_to w (postMessage throws m st) = delivered_to w st
            \<and> forgotten (postMessage throws m st) w"
    using rej R(7) by blast
  have c3: "\<forall>w. w \<in> set (webviews st) \<and> eligible st w \<and> (\<forall>l. \<not> throws l w (from_extension m)) \<longrightarrow>
            delivered_to w (postMessage throws m st) = delivered_to w st @ [from_extension m]
            \<and> tracked_alike st (postMessage throws m st) w"
    using acc R(8) by blast
  have c4: "\<forall>w. \<not> (w \<in> set (webviews st) \<and> eligible st w) \<longrightarrow> untouched st (postMessage throws m st) w"
    using unt by blast
  have "(\<exists>w\<in>set (webviews st). eligible st w \<and> w \<in> set (webviews (postMessage throws m st)))
      = (\<exists>w\<in>set (webviews st). eligible st w \<and> w \<notin> set R)"
    by (auto simp: R(3))
  then have c5: "pendingMessages (postMessage throws m st) =
            (if \<exists>w\<in>set (webviews st). eligible st w \<and> w \<in> set (webviews (postMessage throws m st))
             then pendingMessages st else pendingMessages (enqueuePendingMessage m st))"
    using R(6) by simp
  from c1 c2 c3 c4 c5 show ?thesis by blast
qed

theorem C5_post_delivery_failure_witness:
  "distinct (webviews two_ready) \<and> eligible two_ready 0 \<and> eligible two_ready 1
   \<and> forgotten (postMessage zero_throws (JStr ''hi'') two_ready) 0
   \<and> delivered_to 0 (postMessage zero_throws (JStr ''hi'') two_ready) = []
   \<and> delivered_to 1 (postMessage zero_throws (JStr ''hi'') two_ready) = [from_extension (JStr ''hi'')]
   \<and> pendingMessages (postMessage zero_throws (JStr ''hi'') two_ready) = []
   \<and> pendingMessages (postMessage zero_throws (JStr ''hi'') only_zero_ready) = [from_extension (JStr ''hi'')]
   \<and> forgotten (postMessage zero_throws (JStr ''hi'') only_zero_ready) 0"
proof -
  have h: "distinct (webviews two_ready)" "0 \<in> set (webviews two_ready)" "1 \<in> set (webviews two_ready)"
    "eligible two_ready 0" "eligible two_ready 1"
    "delivered_to 0 two_ready = []" "delivered_to 1 two_ready = []" "pendingMessages two_ready = []"
    by (simp_all add: two_ready_def bridge_eval)
  have z: "\<forall>l. zero_throws l 0 (from_extension (JStr ''hi''))"
    "\<forall>l. \<not> zero_throws l 1 (from_extension (JStr ''hi''))"
    by (simp_all add: zero_throws_def)
  note t = C5_post_delivery_failure [OF h(1), of zero_throws "JStr ''hi''"]
  have a0: "delivered_to 0 (postMessage zero_throws (JStr ''hi'') two_ready) = delivered_to 0 two_ready
      \<and> forgotten (postMessage zero_throws (JStr ''hi'') two_ready) 0"
    by (rule t [THEN conjunct2, THEN conjunct1, THEN spec, THEN mp, OF conjI [OF h(2) conjI [OF h(4) z(1)]]])
  have a1: "delivered_to 1 (postMessage zero_throws (JStr ''hi'') two_ready)
        = delivered_to 1 two_ready @ [from_extension (JStr ''hi'')]
      \<and> tracked_alike two_ready (postMessage zero_throws (JStr ''hi'') two_ready) 1"
    by (rule t [THEN conjunct2, THEN conjunct2, THEN conjunct1, THEN spec, THEN mp,
          OF conjI [OF h(3) conjI [OF h(5) z(2)]]])
  have w1: "1 \<in> set (webviews (postMessage zero_throws (JStr ''hi'') two_ready))"
    using a1 h(3) by (simp add: tracked_alike_def)
  have p: "pendingMessages (postMessage zero_throws (JStr ''hi'') two_ready) = pendingMessages two_ready"
    using t [THEN conjunct2, THEN conjunct2, THEN conjunct2, THEN conjunct2] h(3,5) w1 by auto
  have o: "distinct (webviews only_zero_ready)" "0 \<in> set (webviews only_zero_ready)"
    "eligible only_zero_ready 0" "webviews only_zero_ready = [0]"
    "pendingMessages (enqueuePendingMessage (JStr ''hi'') only_zero_ready) = [from_extension (JStr ''hi'')]"
    by (simp_all add: only_zero_ready_def bridge_eval)
  note u = C5_post_delivery_failure [OF o(1), of zero_throws "JStr ''hi''"]
  have b0: "delivered_to 0 (postMessage zero_throws (JStr ''hi'') only_zero_ready) = delivered_to 0 only_zero_ready
      \<and> forgotten (postMessage zero_throws (JStr ''hi'') only_zero_ready) 0"
    by (rule u [THEN conjunct2, THEN conjunct1, THEN spec, THEN mp, OF conjI [OF o(2) conjI [OF o(3) z(1)]]])
  have "0 \<notin> set (webviews (postMessage zero_throws (JStr ''hi'') only_zero_ready))"
    using b0 by (simp add: forgotten_def)
  then have q: "pendingMessages (postMessage zero_throws (JStr ''hi'') only_zero_ready)
      = pendingMessages (enqueuePendingMessage (JStr ''hi'') only_zero_ready)"
    using u [THEN conjunct2, THEN conjunct2, THEN conjunct2, THEN conjunct2] o(4) by simp
  show ?thesis
    using h a0 a1 p b0 q o(5) by simp
qed

text \<open>
  Claim C7. After any sequence of registrations, disposals, inbound messages and posts
  from the initial state the pending buffer holds at most \<open>MAX_PENDING_MESSAGES = 50\<close>
  entries. An enqueue on a full buffer drops the oldest entry and appends the new one.
  Posting messages while no registered webview is ready and addressed leaves the most
  recent 50 of the buffer followed by the posted messages, in order; 51 posts on an
  empty buffer leave the last 50 of them, the first one dropped.
\<close>

theorem C7_pending_buffer_bounded:
  "length (pendingMessages (service_run throws evs)) \<le> MAX_PENDING_MESSAGES
   \<and> MAX_PENDING_MESSAGES = 50
   \<and> (length (pendingMessages st) \<le> 50 \<longrightarrow>
        pendingMessages (enqueuePendingMessage m st)
          = (if length (pendingMessages st) < 50 then pendingMessages st @ [from_extension m]
             else tl (pendingMessages st) @ [from_extension m]))
   \<and> ((\<forall>w\<in>set (webviews st). \<not> eligible st w) \<and> length (pendingMessages st) \<le> 50 \<longrightarrow>
        pendingMessages (fold (postMessage throws) ms st)
          = drop (length (pendingMessages st) + length ms - 50) (pendingMessages st @ map from_extension ms))
   \<and> ((\<forall>w\<in>set (webviews st). \<not> eligible st w) \<and> pendingMessages st = [] \<and> length ms = 51 \<longrightarrow>
        pendingMessages (fold (postMessage throws) ms st) = map from_extension (tl ms))"
proof -
  have a: "length (pendingMessages (service_run throws evs)) \<le> MAX_PENDING_MESSAGES"
    unfolding service_run_def
    by (rule service_foldl_pending_bound) (simp add: service_init_def)
  have b: "pendingMessages (enqueuePendingMessage m st)
          = (if length (pendingMessages st) < 50 then pendingMessages st @ [from_extension m]
             else tl (pendingMessages st) @ [from_extension m])"
    if "length (pendingMessages st) \<le> 50"
  proof (cases "pendingMessages st")
    case Nil
    then show ?thesis by (simp add: enqueuePendingMessage_def Let_def MAX_PENDING_MESSAGES_def)
  next
    case (Cons x xs)
    then show ?thesis using that by (auto simp: enqueuePendingMessage_def Let_def MAX_PENDING_MESSAGES_def)
  qed
  have c: "pendingMessages (fold (postMessage throws) ms st)
          = drop (length (pendingMessages st) + length ms - 50) (pendingMessages st @ map from_extension ms)"
    if "\<forall>w\<in>set (webviews st). \<not> eligible st w" "length (pendingMessages st) \<le> 50"
    using that by (rule fold_post_none_eligible)
  have d: "pendingMessages (fold (postMessage throws) ms st) = map from_extension (tl ms)"
    if "\<forall>w\<in>set (webviews st). \<not> eligible st w" "pendingMessages st = []" "length ms = 51"
  proof -
    have "pendingMessages (fold (postMessage throws) ms st) = drop 1 (map from_extension ms)"
      using c [OF that(1)] that(2,3) by simp
    then show ?thesis by (simp add: drop_Suc map_tl)
  qed
  show ?thesis using a b c d by (simp add: MAX_PENDING_MESSAGES_def)
qed

lemma numbered_51: "length (numbered 51) = 51" by (simp add: numbered_def)

theorem C7_pending_buffer_bounded_witness:
  "length (pendingMessages (service_run never_throws (map Post (numbered 51)))) \<le> 50
   \<and> length (numbered 51) = 51
   \<and> pendingMessages (fold (postMessage never_throws) (numbered 51) service_init)
        = map from_extension (tl (numbered 51))
   \<and> length (pendingMessages (fold (postMessage never_throws) (numbered 51) service_init)) = 50
   \<and> hd (numbered 51) = JNum 0 0
   \<and> hd (pendingMessages (fold (postMessage never_throws) (numbered 51) service_init)) = from_extension (JNum 1 0)
   \<and> last (pendingMessages (fold (postMessage never_throws) (numbered 51) service_init)) = from_extension (JNum 50 0)"
proof -
  have h: "\<forall>w\<in>set (webviews (service_init :: nat WebViewService)). \<not> eligible service_init w"
    "pendingMessages (service_init :: nat WebViewService) = []"
    by (simp_all add: service_init_def)
  note t = C7_pending_buffer_bounded [of never_throws "map Post (numbered 51)" service_init _ "numbered 51"]
  have p: "pendingMessages (fold (postMessage never_throws) (numbered 51) service_init)
        = map from_extension (tl (numbered 51))"
    using t h numbered_51 by blast
  have n: "tl (numbered 51) = map (\<lambda>i. JNum (int i) 0) [1..<51]"
    by (simp add: numbered_def map_tl upt_rec [of 0 51] del: upt_Suc)
  have hd0: "hd (numbered 51) = JNum 0 0"
    by (simp add: numbered_def upt_rec [of 0 51] del: upt_Suc)
  have ne: "[1..<51::nat] \<noteq> []" by simp
  have hd1: "hd (map from_extension (tl (numbered 51))) = from_extension (JNum 1 0)"
    unfolding n using ne by (simp add: hd_map del: upt_Suc upt_eq_Nil_conv)
  have l1: "last (map from_extension (tl (numbered 51))) = from_extension (JNum 50 0)"
    unfolding n using ne by (simp add: last_map del: upt_Suc upt_eq_Nil_conv)
  show ?thesis
    using t p hd0 hd1 l1 by (simp add: MAX_PENDING_MESSAGES_def numbered_def)
qed

text \<open>
  What a flush does: a non-empty pending buffer is never emptied by a registration, a
  disposal or a post; an inbound message (the only caller of the flush) leaves the
  buffer as it was or empties it entirely. Whenever an inbound message from \<open>w\<close> empties
  a non-empty buffer, \<open>w\<close> was not ready before, the flush ran on the service with \<open>w\<close>
  marked ready, the buffer was still whole when the replay loops ended, and every ready
  and addressed webview, if there is one, was replayed the buffer in its original
  order: all of it if it is still tracked afterwards (in particular if its send never
  throws), a proper prefix, which may be empty, if its send threw, in which case it is
  forgotten. Webviews that are not ready and addressed are untouched.
\<close>

lemma flush_replays_buffer:
  assumes "distinct (readyWebviews st)"
  shows "(pendingMessages st \<noteq> [] \<longrightarrow>
            pendingMessages (service_step throws st (Register u c)) \<noteq> []
            \<and> pendingMessages (service_step throws st (Dispose u)) \<noteq> []
            \<and> pendingMessages (service_step throws st (Post m)) \<noteq> [])
       \<and> (pendingMessages (service_step throws st (Inbound w)) = pendingMessages st
            \<or> pendingMessages (service_step throws st (Inbound w)) = [])
       \<and> (pendingMessages st \<noteq> [] \<and> pendingMessages (service_step throws st (Inbound w)) = [] \<longrightarrow>
            w \<notin> set (readyWebviews st)
            \<and> service_step throws st (Inbound w) = flushPendingMessages throws (add_ready w st)
            \<and> pendingMessages (fold (flush_target throws) (readyWebviews (add_ready w st)) (add_ready w st))
                 = pendingMessages st
            \<and> (\<forall>v. eligible (add_ready w st) v \<longrightarrow>
                  replayed (add_ready w st) (service_step throws st (Inbound w)) (pendingMessages st) v)
            \<and> (\<forall>v. eligible (add_ready w st) v \<and> (\<forall>l q. \<not> throws l v q) \<longrightarrow>
                  delivered_to v (service_step throws st (Inbound w)) = delivered_to v st @ pendingMessages st
                  \<and> tracked_alike (add_ready w st) (service_step throws st (Inbound w)) v)
            \<and> (\<forall>v. \<not> eligible (add_ready w st) v \<longrightarrow>
                  untouched (add_ready w st) (service_step throws st (Inbound w)) v))"
proof -
  have a: "pendingMessages (service_step throws st (Register u c)) \<noteq> []
            \<and> pendingMessages (service_step throws st (Dispose u)) \<noteq> []
            \<and> pendingMessages (service_step throws st (Post m)) \<noteq> []"
    if "pendingMessages st \<noteq> []"
    using that postMessage_pending_cases [of throws m st] enqueue_pending_nonempty [of m st]
    by (auto simp: registerWebview_def forget_simps)
  have b: "pendingMessages (service_step throws st (Inbound w)) = pendingMessages st
            \<or> pendingMessages (service_step throws st (Inbound w)) = []"
    using flushPendingMessages_pending [of throws "add_ready w st"]
    by (auto simp: markWebviewReady_def add_ready_simps)
  have c: "w \<notin> set (readyWebviews st)
            \<and> service_step throws st (Inbound w) = flushPendingMessages throws (add_ready w st)
            \<and> pendingMessages (fold (flush_target throws) (readyWebviews (add_ready w st)) (add_ready w st))
                 = pendingMessages st
            \<and> (\<forall>v. eligible (add_ready w st) v \<longrightarrow>
                  replayed (add_ready w st) (service_step throws st (Inbound w)) (pendingMessages st) v)
            \<and> (\<forall>v. eligible (add_ready w st) v \<and> (\<forall>l q. \<not> throws l v q) \<longrightarrow>
                  delivered_to v (service_step throws st (Inbound w)) = delivered_to v st @ pendingMessages st
                  \<and> tracked_alike (add_ready w st) (service_step throws st (Inbound w)) v)
            \<and> (\<forall>v. \<not> eligible (add_ready w st) v \<longrightarrow>
                  untouched (add_ready w st) (service_step throws st (Inbound w)) v)"
    if ne: "pendingMessages st \<noteq> []" and em: "pendingMessages (service_step throws st (Inbound w)) = []"
  proof -
    have nr: "w \<notin> set (readyWebviews st)"
      using ne em by (auto simp: markWebviewReady_def)
    then have eq: "markWebviewReady throws w st = flushPendingMessages throws (add_ready w st)"
      by (simp add: markWebviewReady_def)
    have d: "distinct (readyWebviews (add_ready w st))" by (rule distinct_add_ready [OF assms])
    have r: "readyWebviews (add_ready w st) \<noteq> []" using nr by (simp add: add_ready_simps)
    have p: "pendingMessages (add_ready w st) \<noteq> []" using ne by (simp add: add_ready_simps)
    note fc = flushPendingMessages_char [OF d r p, where throws = throws]
    have c1: "\<forall>v. eligible (add_ready w st) v \<longrightarrow>
                  replayed (add_ready w st) (service_step throws st (Inbound w)) (pendingMessages st) v"
      using fc(2) by (simp add: eq add_ready_simps)
    have c2: "\<forall>v. eligible (add_ready w st) v \<and> (\<forall>l q. \<not> throws l v q) \<longrightarrow>
                  delivered_to v (service_step throws st (Inbound w)) = delivered_to v st @ pendingMessages st
                  \<and> tracked_alike (add_ready w st) (service_step throws st (Inbound w)) v"
      using fc(4) by (simp add: eq add_ready_simps)
    have c3: "\<forall>v. \<not> eligible (add_ready w st) v \<longrightarrow>
                  untouched (add_ready w st) (service_step throws st (Inbound w)) v"
      using fc(3) by (simp add: eq)
    have c0: "pendingMessages (fold (flush_target throws) (readyWebviews (add_ready w st)) (add_ready w st))
                 = pendingMessages st"
      using flush_fold_char [OF d, of throws "add_ready w st"] by (simp add: add_ready_simps)
    show ?thesis using nr eq c0 c1 c2 c3 by simp
  qed
  show ?thesis using a b c by blast
qed

text \<open>
  Claim C2 does not hold of the code: the flush empties the buffer whether or not a
  message was handed to a target. In \<open>buffered_editor\<close> two messages are buffered and the
  only webview is an editor page; its first inbound message runs the flush, which
  skips the page in the replay loop, as it is not addressed, and then empties the
  buffer: nothing has been delivered, and the sidebar chat view that is registered and
  becomes ready afterwards receives nothing. In \<open>buffered_failing\<close> the only webview is
  a sidebar chat view whose send throws: the flush forgets it at the first payload and
  empties the buffer, and nothing has been delivered. \<open>postMessage\<close> does keep a message
  that nobody accepted: posted to the same failing view, once ready, the message is
  buffered.
\<close>

theorem C2_flush_drops_undelivered_buffer:
  "pendingMessages buffered_editor = [from_extension (JStr ''a''), from_extension (JStr ''b'')]
   \<and> pendingMessages (service_step never_throws buffered_editor (Inbound 1)) = []
   \<and> delivered (service_step never_throws buffered_editor (Inbound 1)) = []
   \<and> delivered (service_run never_throws
        [Post (JStr ''a''), Post (JStr ''b''), Register 1 editor_settings, Inbound 1,
         Register 0 sidebar_chat, Inbound 0]) = []
   \<and> pendingMessages buffered_failing = [from_extension (JStr ''a''), from_extension (JStr ''b'')]
   \<and> pendingMessages (service_step zero_throws buffered_failing (Inbound 0)) = []
   \<and> delivered (service_step zero_throws buffered_failing (Inbound 0)) = []
   \<and> webviews (service_step zero_throws buffered_failing (Inbound 0)) = []
   \<and> pendingMessages (service_run zero_throws [Register 0 sidebar_chat, Inbound 0, Post (JStr ''a'')])
        = [from_extension (JStr ''a'')]"
  by (simp add: buffered_editor_def buffered_failing_def editor_settings_def bridge_eval)

theorem C2_flush_drops_undelivered_buffer_witness:
  "\<exists>st w. pendingMessages st \<noteq> []
     \<and> pendingMessages (service_step never_throws st (Inbound w)) = []
     \<and> delivered (service_step never_throws st (Inbound w)) = []"
proof -
  note t = C2_flush_drops_undelivered_buffer
  have "pendingMessages buffered_editor \<noteq> []"
    using t [THEN conjunct1] by simp
  then show ?thesis
    using t [THEN conjunct2, THEN conjunct1] t [THEN conjunct2, THEN conjunct2, THEN conjunct1]
    by blast
qed


text \<open>
  Claim C6. On a service with no registered webview, \<open>postMessage m\<close> only enqueues:
  \<open>m\<close> is the last entry of the pending buffer afterwards. When a webview \<open>w\<close> (not marked
  ready before, and whose sends do not throw) is then registered as the sidebar chat
  view and sends its first inbound message, it receives the whole buffer in enqueue
  order and the buffer is empty; a message posted after that reaches \<open>w\<close> after the
  buffered ones and is not buffered.
\<close>

theorem C6_buffered_then_flushed_on_ready:
  assumes "webviews st = []" "w \<notin> set (readyWebviews st)" "distinct (readyWebviews st)"
    "\<forall>l q. \<not> throws l w q"
  shows "postMessage throws m st = enqueuePendingMessage m st
       \<and> pendingMessages (postMessage throws m st) \<noteq> []
       \<and> last (pendingMessages (postMessage throws m st)) = from_extension m
       \<and> delivered_to w (buffer_then_ready throws m w st)
            = delivered_to w st @ pendingMessages (postMessage throws m st)
       \<and> pendingMessages (buffer_then_ready throws m w st) = []
       \<and> delivered_to w (postMessage throws m' (buffer_then_ready throws m w st))
            = delivered_to w st @ pendingMessages (postMessage throws m st) @ [from_extension m']
       \<and> pendingMessages (postMessage throws m' (buffer_then_ready throws m w st)) = []"
proof -
  define st1 where "st1 = postMessage throws m st"
  define st2 where "st2 = registerWebview w sidebar_chat st1"
  define sM where "sM = add_ready w st2"
  define st3 where "st3 = flushPendingMessages throws sM"
  have p1: "st1 = enqueuePendingMessage m st"
    using assms(1) by (simp add: st1_def postMessage_def)
  have ne1: "pendingMessages st1 \<noteq> []" by (simp add: p1 enqueue_pending_nonempty)
  have la1: "last (pendingMessages st1) = from_extension m" by (simp add: p1 enqueue_pending_last)
  have f1: "webviews st1 = []" "readyWebviews st1 = readyWebviews st"
    "delivered st1 = delivered st"
    using assms(1) by (simp_all add: p1 enqueue_frame)
  have f2: "webviews st2 = [w]" "readyWebviews st2 = readyWebviews st" "webviewConfigs st2 w = Some sidebar_chat"
    "pendingMessages st2 = pendingMessages st1" "delivered st2 = delivered st"
    using f1 by (simp_all add: st2_def registerWebview_def Set_add_def)
  have nr: "w \<notin> set (readyWebviews st2)" using assms(2) f2 by simp
  have fM: "webviews sM = [w]" "readyWebviews sM = readyWebviews st @ [w]"
    "webviewConfigs sM w = Some sidebar_chat" "pendingMessages sM = pendingMessages st1"
    "delivered_to w sM = delivered_to w st"
    using f2 nr by (simp_all add: sM_def add_ready_simps delivered_to_def)
  have btr: "buffer_then_ready throws m w st = st3"
    using nr by (simp add: buffer_then_ready_def markWebviewReady_def st3_def sM_def st2_def st1_def)
  have dM: "distinct (readyWebviews sM)" using assms(2,3) fM by simp
  have rM: "readyWebviews sM \<noteq> []" using fM by simp
  have pM: "pendingMessages sM \<noteq> []" using fM ne1 by simp
  have eM: "eligible sM w"
    using fM by (simp add: eligible_def not_addressed_def sidebar_chat_def)
  note fc = flushPendingMessages_char [OF dM rM pM, where throws = throws]
  have p3: "pendingMessages st3 = []" using fc(1) by (simp add: st3_def)
  have d3: "delivered_to w st3 = delivered_to w st @ pendingMessages st1"
    and t3: "tracked_alike sM st3 w"
    using fc(4) [OF eM assms(4)] fM by (simp_all add: st3_def)
  have w3: "w \<in> set (webviews st3)" "eligible st3 w"
    using t3 eM fM by (simp_all add: tracked_alike_def eligible_def)
  have dist3: "distinct (webviews st3)"
    unfolding st3_def by (rule flushPendingMessages_distinct) (simp add: fM)
  obtain R where R:
    "\<And>v. delivered_to v (postMessage throws m' st3) = delivered_to v st3
         @ (if v \<in> set (webviews st3) \<and> eligible st3 v \<and> v \<notin> set R then [from_extension m'] else [])"
    "pendingMessages (postMessage throws m' st3) =
       (if \<exists>v\<in>set (webviews st3). eligible st3 v \<and> v \<notin> set R then pendingMessages st3
        else pendingMessages (enqueuePendingMessage m' st3))"
    "\<And>v. \<forall>l. \<not> throws l v (from_extension m') \<Longrightarrow> v \<notin> set R"
    by (rule postMessage_char [OF dist3, of throws m']) blast
  have nR: "w \<notin> set R" using R(3) [of w] assms(4) by blast
  have d4: "delivered_to w (postMessage throws m' st3)
      = delivered_to w st @ pendingMessages st1 @ [from_extension m']"
    using R(1) [of w] w3 nR d3 by simp
  have "\<exists>v\<in>set (webviews st3). eligible st3 v \<and> v \<notin> set R" using w3 nR by blast
  then have p4: "pendingMessages (postMessage throws m' st3) = []" using R(2) p3 by simp
  show ?thesis
    unfolding btr using p1 ne1 la1 d3 p3 d4 p4 by (simp add: st1_def)
qed

theorem C6_buffered_then_flushed_on_ready_witness:
  "webviews (service_init :: nat WebViewService) = []
   \<and> pendingMessages (postMessage never_throws (JStr ''a'') service_init) = [from_extension (JStr ''a'')]
   \<and> delivered_to 1 (buffer_then_ready never_throws (JStr ''a'') 1 service_init) = [from_extension (JStr ''a'')]
   \<and> pendingMessages (buffer_then_ready never_throws (JStr ''a'') 1 service_init) = []
   \<and> delivered_to 1 (postMessage never_throws (JStr ''b'') (buffer_then_ready never_throws (JStr ''a'') 1 service_init))
        = [from_extension (JStr ''a''), from_extension (JStr ''b'')]"
proof -
  have h: "webviews (service_init :: nat WebViewService) = []"
    "1 \<notin> set (readyWebviews (service_init :: nat WebViewService))"
    "distinct (readyWebviews (service_init :: nat WebViewService))"
    "\<forall>l q. \<not> never_throws l (1::nat) q"
    "delivered_to 1 (service_init :: nat WebViewService) = []"
    "pendingMessages (enqueuePendingMessage (JStr ''a'') (service_init :: nat WebViewService))
       = [from_extension (JStr ''a'')]"
    by (simp_all add: bridge_eval)
  note t = C6_buffered_then_flushed_on_ready [where throws = never_throws and w = "1::nat"
      and st = service_init and m = "JStr ''a''" and m' = "JStr ''b''", OF h(1,2,3,4)]
  have e: "postMessage never_throws (JStr ''a'') (service_init :: nat WebViewService)
      = enqueuePendingMessage (JStr ''a'') service_init"
    by (rule t [THEN conjunct1])
  show ?thesis
    using t [THEN conjunct2, THEN conjunct2, THEN conjunct2] h(1)
    unfolding e h(5) h(6) by simp
qed

section \<open>Content block classifier: lemmas\<close>

lemma getprop_object: "is_fragment_object raw \<Longrightarrow> getprop raw k = Inr (readprop raw k)"
  by (cases raw) (simp_all add: is_fragment_object_def typeof_object_def getprop_def nullish_def)





lemma stringify_object:
  "is_fragment_object raw \<Longrightarrow> stringify g raw = Inr dump \<Longrightarrow> dump \<noteq> None"
  by (cases raw)
     (auto simp: is_fragment_object_def typeof_object_def bind_js_def split: sum.splits if_splits)





lemma parseBlock_nonobject:
  "\<not> is_fragment_object raw \<Longrightarrow>
   parseBlock g raw = bind_js (to_String g (coalesce raw (JStr ''''))) (\<lambda>s. Inr [TextBlock s None])"
  by (simp add: parseBlock_def is_fragment_object_def createTextBlock_def)

lemma parseBlock_object:
  assumes "is_fragment_object raw"
  shows "parseBlock g raw =
     (if readprop raw ''type'' = JStr ''text''
      then bind_js (to_String g (coalesce (readprop raw ''text'') (coalesce (readprop raw ''value'') (JStr ''''))))
             (\<lambda>s. Inr (parseTextBlock s))
      else if readprop raw ''type'' = JStr ''thinking''
      then bind_js (to_String g (coalesce (readprop raw ''thinking'') (JStr ''''))) (\<lambda>s. Inr [ThinkingBlock s])
      else if readprop raw ''type'' = JStr ''redacted_thinking'' then Inr []
      else if readprop raw ''type'' = JStr ''image'' then Inr [ImageBlock (readprop raw ''source'')]
      else if readprop raw ''type'' = JStr ''document''
      then Inr [DocumentBlock (readprop raw ''title'') (readprop raw ''source'')]
      else if readprop raw ''type'' = JStr ''tool_use'' then Inr [createToolUseBlock raw]
      else if readprop raw ''type'' = JStr ''tool_result''
      then Inr [ToolResultBlock (readprop raw ''tool_use_id'') (readprop raw ''content'') (readprop raw ''is_error'')]
      else bind_js (stringify g raw) (\<lambda>dump. Inr [TextBlock (the dump) None]))"
proof -
  have a: "\<not> (\<not> truthy raw \<or> \<not> typeof_object raw)"
    using assms by (simp add: is_fragment_object_def)
  have s: "bind_js (stringify g raw) (\<lambda>dump. Inr [createTextBlock (case dump of Some s \<Rightarrow> s | None \<Rightarrow> ''undefined'')])
      = bind_js (stringify g raw) (\<lambda>dump. Inr [TextBlock (the dump) None])"
    using stringify_object [OF assms, of g]
    by (cases "stringify g raw") (auto simp: bind_js_def createTextBlock_def)
  show ?thesis
    unfolding parseBlock_def if_not_P [OF a] s
    by (simp add: getprop_object [OF assms] bind_js_def createThinkingBlock_def createImageBlock_def
          createDocumentBlock_def createToolResultBlock_def coalesce_def)
qed






lemma parse_loop_returns:
  "(parse_loop g blocks raws = Inr result)
     = (\<exists>parts. list_all2 (\<lambda>raw part. parseBlock g raw = Inr part) raws parts
          \<and> result = blocks @ concat parts)"
proof (induction raws arbitrary: blocks)
  case Nil
  show ?case by auto
next
  case (Cons raw rest)
  show ?case
  proof (cases "parseBlock g raw")
    case (Inl e)
    then show ?thesis by (auto simp: bind_js_def list_all2_Cons1)
  next
    case (Inr part)
    then show ?thesis
      using Cons.IH [of "blocks @ part"]
      by (auto simp: bind_js_def list_all2_Cons1)
  qed
qed

lemma parse_loop_total:
  "(\<exists>result. parse_loop g blocks raws = Inr result) = (\<forall>raw\<in>set raws. \<exists>part. parseBlock g raw = Inr part)"
proof (induction raws arbitrary: blocks)
  case Nil
  show ?case by simp
next
  case (Cons raw rest)
  show ?case
  proof (cases "parseBlock g raw")
    case (Inl e)
    then show ?thesis by (simp add: bind_js_def)
  next
    case (Inr part)
    then show ?thesis using Cons.IH [of "blocks @ part"] by (simp add: bind_js_def)
  qed
qed

lemma parseTextBlock_interrupt:
  "lookup_interrupt text \<noteq> None \<Longrightarrow>
   parseTextBlock text = [InterruptBlock text (the (lookup_interrupt text))]"
  unfolding parseTextBlock_def by (rule if_P)

lemma parseTextBlock_selection:
  assumes "\<not> lookup_interrupt text \<noteq> None"
    "includes_text text ''<ide_selection>'' \<and> parseSelection text \<noteq> None"
  shows "parseTextBlock text = [the (parseSelection text)]"
  unfolding parseTextBlock_def if_not_P [OF assms(1)] if_P [OF assms(2)] by (rule refl)

lemma parseTextBlock_opened:
  assumes "\<not> lookup_interrupt text \<noteq> None"
    "\<not> (includes_text text ''<ide_selection>'' \<and> parseSelection text \<noteq> None)"
    "includes_text text ''<ide_opened_file>'' \<and> parseOpenedFile text \<noteq> None"
  shows "parseTextBlock text = [the (parseOpenedFile text)]"
  unfolding parseTextBlock_def if_not_P [OF assms(1)] if_not_P [OF assms(2)] if_P [OF assms(3)]
  by (rule refl)

lemma parseTextBlock_command_result:
  assumes "\<not> lookup_interrupt text \<noteq> None"
    "\<not> (includes_text text ''<ide_selection>'' \<and> parseSelection text \<noteq> None)"
    "\<not> (includes_text text ''<ide_opened_file>'' \<and> parseOpenedFile text \<noteq> None)"
    "(includes_text text ''<local-command-stderr>'' \<or> includes_text text ''<local-command-stdout>'')
       \<and> parseSlashCommandResult text \<noteq> None"
  shows "parseTextBlock text = [the (parseSlashCommandResult text)]"
  unfolding parseTextBlock_def if_not_P [OF assms(1)] if_not_P [OF assms(2)] if_not_P [OF assms(3)]
    if_P [OF assms(4)]
  by (rule refl)

lemma parseTextBlock_diagnostics:
  assumes "\<not> rule_before_diagnostics text"
  shows "parseTextBlock text =
     (if includes_text text ''<post-tool-use-hook>'' \<and> parseDiagnostics text \<noteq> None
      then [the (parseDiagnostics text)] else rules_after_diagnostics text)"
proof -
  have a: "\<not> lookup_interrupt text \<noteq> None"
    "\<not> (includes_text text ''<ide_selection>'' \<and> parseSelection text \<noteq> None)"
    "\<not> (includes_text text ''<ide_opened_file>'' \<and> parseOpenedFile text \<noteq> None)"
    "\<not> ((includes_text text ''<local-command-stderr>'' \<or> includes_text text ''<local-command-stdout>'')
       \<and> parseSlashCommandResult text \<noteq> None)"
    using assms unfolding rule_before_diagnostics_def by blast+
  show ?thesis
    unfolding parseTextBlock_def rules_after_diagnostics_def
      if_not_P [OF a(1)] if_not_P [OF a(2)] if_not_P [OF a(3)] if_not_P [OF a(4)]
    by (rule refl)
qed

lemma parseTextBlock_cases:
  obtains (interrupt) "lookup_interrupt text \<noteq> None"
      "parseTextBlock text = [InterruptBlock text (the (lookup_interrupt text))]"
    | (selection) c where "parseSelection text = Some c" "parseTextBlock text = [c]"
        "rule_before_diagnostics text"
    | (opened) c where "parseOpenedFile text = Some c" "parseTextBlock text = [c]"
        "rule_before_diagnostics text"
    | (command_result) c where "parseSlashCommandResult text = Some c" "parseTextBlock text = [c]"
        "rule_before_diagnostics text"
    | (diagnostics) c where "\<not> rule_before_diagnostics text"
        "includes_text text ''<post-tool-use-hook>''" "parseDiagnostics text = Some c"
        "parseTextBlock text = [c]"
    | (later) "\<not> rule_before_diagnostics text"
        "\<not> (includes_text text ''<post-tool-use-hook>'' \<and> parseDiagnostics text \<noteq> None)"
        "parseTextBlock text = rules_after_diagnostics text"
proof -
  consider (i) "lookup_interrupt text \<noteq> None"
    | (s) "\<not> lookup_interrupt text \<noteq> None" "includes_text text ''<ide_selection>'' \<and> parseSelection text \<noteq> None"
    | (o) "\<not> lookup_interrupt text \<noteq> None" "\<not> (includes_text text ''<ide_selection>'' \<and> parseSelection text \<noteq> None)"
        "includes_text text ''<ide_opened_file>'' \<and> parseOpenedFile text \<noteq> None"
    | (r) "\<not> lookup_interrupt text \<noteq> None" "\<not> (includes_text text ''<ide_selection>'' \<and> parseSelection text \<noteq> None)"
        "\<not> (includes_text text ''<ide_opened_file>'' \<and> parseOpenedFile text \<noteq> None)"
        "(includes_text text ''<local-command-stderr>'' \<or> includes_text text ''<local-command-stdout>'')
              \<and> parseSlashCommandResult text \<noteq> None"
    | (n) "\<not> rule_before_diagnostics text"
    unfolding rule_before_diagnostics_def by blast
  then show thesis
  proof cases
    case i
    show thesis by (rule interrupt [OF i parseTextBlock_interrupt [OF i]])
  next
    case s
    then obtain c where c: "parseSelection text = Some c" by auto
    have "parseTextBlock text = [c]" using parseTextBlock_selection [OF s] c by simp
    moreover have "rule_before_diagnostics text" using s(2) by (simp add: rule_before_diagnostics_def)
    ultimately show thesis using selection c by blast
  next
    case o
    then obtain c where c: "parseOpenedFile text = Some c" by auto
    have "parseTextBlock text = [c]" using parseTextBlock_opened [OF o] c by simp
    moreover have "rule_before_diagnostics text" using o(3) by (simp add: rule_before_diagnostics_def)
    ultimately show thesis using opened c by blast
  next
    case r
    then obtain c where c: "parseSlashCommandResult text = Some c" by auto
    have "parseTextBlock text = [c]" using parseTextBlock_command_result [OF r] c by simp
    moreover have "rule_before_diagnostics text" using r(4) by (simp add: rule_before_diagnostics_def)
    ultimately show thesis using command_result c by blast
  next
    case n
    show thesis
    proof (cases "includes_text text ''<post-tool-use-hook>'' \<and> parseDiagnostics text \<noteq> None")
      case True
      then obtain c where c: "parseDiagnostics text = Some c" by auto
      have "parseTextBlock text = [the (parseDiagnostics text)]"
        unfolding parseTextBlock_diagnostics [OF n] by (rule if_P [OF True])
      then have "parseTextBlock text = [c]" using c by simp
      then show thesis using diagnostics n True c by blast
    next
      case False
      have "parseTextBlock text = rules_after_diagnostics text"
        unfolding parseTextBlock_diagnostics [OF n] by (rule if_not_P [OF False])
      then show thesis using later n False by blast
    qed
  qed
qed

lemma rules_after_diagnostics_length: "length (rules_after_diagnostics text) \<le> 1"
  by (simp add: rules_after_diagnostics_def)

lemma rules_after_diagnostics_empty:
  "(rules_after_diagnostics text = []) = (tool_rejection text \<and> \<not> truthy_text (parseSlashCommandText text))"
  by (simp add: rules_after_diagnostics_def)

lemma parseTextBlock_length: "length (parseTextBlock text) \<le> 1"
  using rules_after_diagnostics_length [of "text"]
  by (cases "text" rule: parseTextBlock_cases) simp_all

lemma parseTextBlock_empty:
  "(parseTextBlock text = []) = (tool_rejection text \<and> \<not> earlier_rule text)"
proof (cases "text" rule: parseTextBlock_cases)
  case interrupt
  then show ?thesis by (simp add: earlier_rule_def rule_before_diagnostics_def)
next
  case (selection c)
  then show ?thesis by (simp add: earlier_rule_def)
next
  case (opened c)
  then show ?thesis by (simp add: earlier_rule_def)
next
  case (command_result c)
  then show ?thesis by (simp add: earlier_rule_def)
next
  case (diagnostics c)
  then show ?thesis by (simp add: earlier_rule_def)
next
  case later
  have "earlier_rule text = truthy_text (parseSlashCommandText text)"
    unfolding earlier_rule_def using later(1,2) by blast
  then show ?thesis
    using later(3) by (simp add: rules_after_diagnostics_empty)
qed










lemma parseBlock_text:
  assumes "is_fragment_object raw" "readprop raw ''type'' = JStr ''text''" "parseBlock g raw = Inr part"
  shows "\<exists>s. fragment_text g raw = Some s \<and> part = parseTextBlock s"
  using assms(2,3) unfolding parseBlock_object [OF assms(1)] fragment_text_def
  by (auto simp: assms(1) bind_js_def split: sum.splits)

lemma part_length:
  assumes "parseBlock g raw = Inr part"
  shows "length part \<le> 1"
proof (cases "is_fragment_object raw")
  case True
  show ?thesis
    using assms parseTextBlock_length unfolding parseBlock_object [OF True]
    by (auto simp: bind_js_def split: sum.splits if_splits)
next
  case False
  then show ?thesis using assms by (auto simp: parseBlock_nonobject bind_js_def split: sum.splits)
qed

lemma part_empty:
  assumes "parseBlock g raw = Inr part"
  shows "(part = []) = (is_redacted raw \<or> dropped_text g raw)"
proof (cases "is_fragment_object raw")
  case True
  show ?thesis
  proof (cases "readprop raw ''type'' = JStr ''text''")
    case t: True
    obtain s where s: "fragment_text g raw = Some s" "part = parseTextBlock s"
      using parseBlock_text [OF True t assms] by blast
    show ?thesis
      using t s by (simp add: parseTextBlock_empty is_redacted_def dropped_text_def)
  next
    case f: False
    have "dropped_text g raw = False" using f by (simp add: dropped_text_def fragment_text_def)
    then show ?thesis
      using assms f True unfolding parseBlock_object [OF True]
      by (auto simp: is_redacted_def bind_js_def split: sum.splits if_splits)
  qed
next
  case False
  then show ?thesis
    using assms
    by (auto simp: parseBlock_nonobject is_redacted_def dropped_text_def fragment_text_def bind_js_def
          split: sum.splits)
qed







section \<open>Content block classifier: theorems\<close>

text \<open>
  Claim C1, as stated, at the text made of the marker and the quoted fragment: the
  classifier does not yield the Selection block with \<open>selectedText = "foo\nbar"\<close>.
\<close>

theorem C1_selection_example_counterexample:
  "includes_text selection_text ''<ide_selection>''
   \<and> includes_text selection_text
        ''from src/a.ts: lines 3 to 7\<newline>foo\<newline>bar\<newline>   This may or may not be related''
   \<and> parseMessageContent ample_stack (Some [text_fragment selection_text])
        \<noteq> Inr [SelectionBlock ''src/a.ts'' ''a.ts#3-7'' (Some (Line 3)) (Some (Line 7)) (Some ''foo\<newline>bar'')]"
  by code_simp

text \<open>
  Claim C1, amended. For the text fragment \<open><ide_selection>from src/a.ts: lines 3 to
  7\nfoo\nbar\n   This may or may not be related</ide_selection>\<close> the classifier yields
  exactly one Selection block with \<open>filePath = "src/a.ts"\<close>, \<open>startLine = 3\<close>,
  \<open>endLine = 7\<close>, \<open>label = "a.ts#3-7"\<close> and \<open>selectedText = "lines 3 to 7\nfoo\nbar"\<close>:
  the snippet is the text between the path colon and the sentinel, so it starts with
  the line-range phrase that follows the colon; white space after the colon and at the
  end is dropped.
\<close>

theorem C1_selection_example:
  "includes_text selection_text ''<ide_selection>''
   \<and> includes_text selection_text
        ''from src/a.ts: lines 3 to 7\<newline>foo\<newline>bar\<newline>   This may or may not be related''
   \<and> parseMessageContent g (Some [text_fragment selection_text])
        = Inr [SelectionBlock ''src/a.ts'' ''a.ts#3-7'' (Some (Line 3)) (Some (Line 7))
                 (Some ''lines 3 to 7\<newline>foo\<newline>bar'')]
   \<and> match selection_text rx_snippet = Some [''lines 3 to 7\<newline>foo\<newline>bar'']
   \<and> replace ''lines 3 to 7\<newline>foo\<newline>bar   '' rx_trailing_space [] = ''lines 3 to 7\<newline>foo\<newline>bar''"
  by code_simp

theorem C1_selection_example_witness:
  "\<exists>label text. parseMessageContent ample_stack (Some [text_fragment selection_text])
      = Inr [SelectionBlock ''src/a.ts'' label (Some (Line 3)) (Some (Line 7)) (Some text)]"
  using C1_selection_example [of ample_stack] by blast




text \<open>
  Claim C4, as stated, at a text fragment that begins with the reason-prefixed rejection
  notice and goes on with a command-name tag: it is a tool-rejection marker for the
  test of the source, and it emits one block, not zero.
\<close>

theorem C4_rejection_text_counterexample:
  "tool_rejection rejection_with_command
   \<and> startsWith rejection_with_command TOOL_REJECTION_PREFIX
   \<and> fragment_text ample_stack (text_fragment rejection_with_command) = Some rejection_with_command
   \<and> parseMessageContent ample_stack (Some [text_fragment rejection_with_command])
        = Inr [TextBlock ''/x'' (Some True)]"
  by code_simp

text \<open>
  Claim C4, amended. Whenever \<open>parseMessageContent\<close> returns, which it does exactly
  when \<open>parseBlock\<close> returns for each fragment of the list (it throws when \<open>String(...)\<close>
  or \<open>JSON.stringify\<close> throws for a fragment), the blocks are the concatenation, in the
  order of the fragments, of what \<open>parseBlock\<close> returns for each of them. What
  \<open>parseBlock\<close> returns for a fragment is at most one block; it is none exactly when the
  fragment is a \<open>redacted_thinking\<close> fragment, or a \<open>text\<close> fragment whose text is a
  tool-rejection marker (equal to the rejection notice, or beginning with the
  reason-prefixed one) that no earlier rule of the pipeline matches (interrupt,
  selection, opened file, local command output, diagnostics, command name); for every
  other fragment it is exactly one block.
\<close>

theorem C4_one_block_per_fragment:
  "(parseMessageContent g (Some raws) = Inr blocks \<longrightarrow>
      (\<exists>parts. list_all2 (\<lambda>raw part. parseBlock g raw = Inr part) raws parts \<and> blocks = concat parts))
   \<and> ((\<exists>blocks. parseMessageContent g (Some raws) = Inr blocks)
        = (\<forall>raw\<in>set raws. \<exists>part. parseBlock g raw = Inr part))
   \<and> (parseBlock g raw = Inr part \<longrightarrow>
        length part \<le> 1
        \<and> (part = []) = (is_redacted raw \<or> dropped_text g raw)
        \<and> (length part = 1) = (\<not> is_redacted raw \<and> \<not> dropped_text g raw))"
proof -
  have a: "\<exists>parts. list_all2 (\<lambda>raw part. parseBlock g raw = Inr part) raws parts \<and> blocks = concat parts"
    if "parseMessageContent g (Some raws) = Inr blocks"
    using that parse_loop_returns [of g "[]" raws blocks]
    by (simp add: parseMessageContent_def fragments_def)
  have b: "(\<exists>blocks. parseMessageContent g (Some raws) = Inr blocks)
        = (\<forall>raw\<in>set raws. \<exists>part. parseBlock g raw = Inr part)"
    using parse_loop_total [of g "[]" raws] by (simp add: parseMessageContent_def fragments_def)
  have c: "length part \<le> 1
        \<and> (part = []) = (is_redacted raw \<or> dropped_text g raw)
        \<and> (length part = 1) = (\<not> is_redacted raw \<and> \<not> dropped_text g raw)"
    if p: "parseBlock g raw = Inr part"
  proof -
    have "(length part = 1) = (part \<noteq> [])"
      using part_length [OF p] by (cases part) simp_all
    then show ?thesis using part_length [OF p] part_empty [OF p] by simp
  qed
  show ?thesis using a b c by blast
qed

theorem C4_one_block_per_fragment_witness:
  "is_redacted (JObj [(''type'', JStr ''redacted_thinking'')])
   \<and> dropped_text ample_stack (text_fragment TOOL_REJECTION_MARKER)
   \<and> \<not> dropped_text ample_stack (text_fragment rejection_with_command)
   \<and> parseBlock ample_stack (text_fragment TOOL_REJECTION_MARKER) = Inr []
   \<and> parseBlock ample_stack (text_fragment rejection_with_command) = Inr [TextBlock ''/x'' (Some True)]
   \<and> length [TextBlock ''/x'' (Some True)] = 1
   \<and> parseMessageContent ample_stack (Some [text_fragment ''a'', JObj [(''type'', JStr ''redacted_thinking'')],
          text_fragment TOOL_REJECTION_MARKER, unknown_fragment, text_fragment ''b''])
        = Inr [TextBlock ''a'' None,
               TextBlock (''{'' @ quote ''type'' @ '':'' @ quote ''zzz'' @ '','' @ quote ''x'' @ '':1}'') None,
               TextBlock ''b'' None]
   \<and> (\<exists>parts. list_all2 (\<lambda>raw part. parseBlock ample_stack raw = Inr part)
          [text_fragment ''a'', JObj [(''type'', JStr ''redacted_thinking'')],
           text_fragment TOOL_REJECTION_MARKER, unknown_fragment, text_fragment ''b''] parts
        \<and> [TextBlock ''a'' None,
            TextBlock (''{'' @ quote ''type'' @ '':'' @ quote ''zzz'' @ '','' @ quote ''x'' @ '':1}'') None,
            TextBlock ''b'' None] = concat parts)
   \<and> \<not> (\<exists>blocks. parseMessageContent ample_stack (Some [text_fragment ''a'', toString_fragment]) = Inr blocks)"
proof -
  have h: "is_redacted (JObj [(''type'', JStr ''redacted_thinking'')])"
    "dropped_text ample_stack (text_fragment TOOL_REJECTION_MARKER)"
    "\<not> dropped_text ample_stack (text_fragment rejection_with_command)"
    "\<not> is_redacted (text_fragment rejection_with_command)"
    by code_simp+
  have e: "parseBlock ample_stack (text_fragment TOOL_REJECTION_MARKER) = Inr []"
    "parseBlock ample_stack (text_fragment rejection_with_command) = Inr [TextBlock ''/x'' (Some True)]"
    "parseMessageContent ample_stack (Some [text_fragment ''a'', JObj [(''type'', JStr ''redacted_thinking'')],
          text_fragment TOOL_REJECTION_MARKER, unknown_fragment, text_fragment ''b''])
        = Inr [TextBlock ''a'' None,
               TextBlock (''{'' @ quote ''type'' @ '':'' @ quote ''zzz'' @ '','' @ quote ''x'' @ '':1}'') None,
               TextBlock ''b'' None]"
    "parseBlock ample_stack toString_fragment = Inl TypeError"
    by code_simp+
  note t = C4_one_block_per_fragment [of ample_stack
      "[text_fragment ''a'', JObj [(''type'', JStr ''redacted_thinking'')],
        text_fragment TOOL_REJECTION_MARKER, unknown_fragment, text_fragment ''b'']"
      "[TextBlock ''a'' None,
        TextBlock (''{'' @ quote ''type'' @ '':'' @ quote ''zzz'' @ '','' @ quote ''x'' @ '':1}'') None,
        TextBlock ''b'' None]"
      "text_fragment rejection_with_command" "[TextBlock ''/x'' (Some True)]"]
  note u = C4_one_block_per_fragment [of ample_stack "[text_fragment ''a'', toString_fragment]" "[]"
      "text_fragment TOOL_REJECTION_MARKER" "[]"]
  have a: "\<exists>parts. list_all2 (\<lambda>raw part. parseBlock ample_stack raw = Inr part)
          [text_fragment ''a'', JObj [(''type'', JStr ''redacted_thinking'')],
           text_fragment TOOL_REJECTION_MARKER, unknown_fragment, text_fragment ''b''] parts
        \<and> [TextBlock ''a'' None,
            TextBlock (''{'' @ quote ''type'' @ '':'' @ quote ''zzz'' @ '','' @ quote ''x'' @ '':1}'') None,
            TextBlock ''b'' None] = concat parts"
    by (rule t [THEN conjunct1, THEN mp, OF e(3)])
  have b: "length [TextBlock ''/x'' (Some True)] = 1"
    using t [THEN conjunct2, THEN conjunct2, THEN mp, OF e(2)] h(3,4) by blast
  have c: "\<not> (\<exists>blocks. parseMessageContent ample_stack (Some [text_fragment ''a'', toString_fragment]) = Inr blocks)"
    unfolding u [THEN conjunct2, THEN conjunct1] using e(4) by simp
  show ?thesis using h(1,2,3) e(1,2,3) a b c by simp
qed



end
